theory Spec2Isabelle
  imports Main "HOL-Library.Word" "HOL-Library.Signed_Division"
begin

section \<open>The input monitor of the launcher (input\_monitor.c)\<close>

text \<open>
  The monitor polls up to three evdev descriptors without blocking and turns key and
  switch events into commands run through \<open>system()\<close>, plus a boolean result that asks
  the caller to power the device off.  The C globals become the record
  \<open>monitor_state\<close>; everything outside the process (the monotonic clock, the events
  queued on each descriptor, the directory \<open>/dev/input\<close>, the table of open
  descriptors, the commands run and the lines printed) becomes the record \<open>env\<close>.
  Both are passed explicitly and returned updated.
\<close>

subsection \<open>Data\<close>

text \<open>\<open>struct timespec\<close>: seconds and nanoseconds.  The fields are C \<open>long\<close>s; they are
  modelled as unbounded integers, the readings of \<open>CLOCK_MONOTONIC\<close> being far from
  the range where \<open>long\<close> arithmetic overflows.\<close>

record timespec =
  tv_sec :: int
  tv_nsec :: int

text \<open>\<open>struct input_event\<close> without its time stamp, which the monitor never reads:
  \<open>__u16 type\<close>, \<open>__u16 code\<close>, \<open>__s32 value\<close>.\<close>

record input_event =
  ev_type :: "16 word"
  ev_code :: "16 word"
  ev_value :: "32 word"

text \<open>The constants of \<open><linux/input-event-codes.h>\<close> that the monitor uses.\<close>

definition EV_KEY :: "16 word" where "EV_KEY = 0x01"
definition EV_SW :: "16 word" where "EV_SW = 0x05"
definition BTN_MODE :: "16 word" where "BTN_MODE = 0x13c"
definition KEY_POWER :: "16 word" where "KEY_POWER = 116"
definition KEY_VOLUMEUP :: "16 word" where "KEY_VOLUMEUP = 115"
definition KEY_VOLUMEDOWN :: "16 word" where "KEY_VOLUMEDOWN = 114"
definition SW_LID :: "16 word" where "SW_LID = 0x00"

definition MAX_INPUT_DEVICES :: nat where "MAX_INPUT_DEVICES = 3"
definition WAKE_DEBOUNCE_MS :: int where "WAKE_DEBOUNCE_MS = 500"

text \<open>The commands handed to \<open>system()\<close>:
  \<^item> \<open>Suspend\<close> is \<^verbatim>\<open>echo mem > /sys/power/state\<close>;
  \<^item> \<open>SetBrightness v\<close> is \<^verbatim>\<open>echo v > /sys/class/backlight/backlight/brightness\<close>;
  \<^item> \<open>VolumeUp\<close> and \<open>VolumeDown\<close> are \<^verbatim>\<open>amixer -q -c 0 sset 'Master' 5%+\<close> and
    \<^verbatim>\<open>5%-\<close>.\<close>

datatype command = Suspend | SetBrightness int | VolumeUp | VolumeDown

text \<open>The lines written to stdout and stderr.\<close>

datatype message =
    Found_input_device string string
  | Warning_could_not_find string
  | Failed_to_open_any
  | Monitoring nat

text \<open>What one \<open>read(fd, &ev, sizeof(ev))\<close> can give: a whole event, \<open>-1\<close> with
  \<open>EAGAIN\<close> (nothing queued), \<open>-1\<close> with another \<open>errno\<close>, or a byte count other than
  \<open>sizeof(ev)\<close>.\<close>

datatype read_result =
    Full input_event
  | Would_block
  | Read_error
  | Short_read

text \<open>A node of \<open>/dev/input\<close>: whether \<open>open()\<close> succeeds on it, and the name
  \<open>EVIOCGNAME\<close> reports (\<open>None\<close> when the ioctl fails).  Names are shorter than the
  256-byte buffer they are copied into.\<close>

record dev_node =
  can_open :: bool
  evname :: "string option"

record env =
  clock :: "nat \<Rightarrow> timespec"            \<comment> \<open>the successive readings of \<open>CLOCK_MONOTONIC\<close>\<close>
  clock_reads :: nat                     \<comment> \<open>how many of them were taken\<close>
  pending :: "int \<Rightarrow> read_result list"   \<comment> \<open>per descriptor, the results of the next reads\<close>
  commands :: "command list"             \<comment> \<open>what \<open>system()\<close> ran, oldest first\<close>
  dev_input :: "(string \<times> dev_node) list option"
                                         \<comment> \<open>the entries of \<open>/dev/input\<close> in \<open>readdir\<close> order;
                                             \<open>None\<close> when \<open>opendir\<close> fails\<close>
  open_fds :: "int list"                 \<comment> \<open>the descriptors open in the process\<close>
  printed :: "message list"              \<comment> \<open>stdout and stderr, oldest first\<close>

text \<open>The file-scope variables of input\_monitor.c.\<close>

record monitor_state =
  input_fds :: "int list"
  num_devices :: nat
  power_press_time :: timespec
  last_wake_time :: timespec
  power_button_held :: bool
  mode_button_held :: bool
  current_brightness :: int

definition zero_time :: timespec where
  "zero_time = \<lparr>tv_sec = 0, tv_nsec = 0\<rparr>"

definition initial_state :: monitor_state where
  "initial_state =
     \<lparr>input_fds = [-1, -1, -1], num_devices = 0,
      power_press_time = zero_time, last_wake_time = zero_time,
      power_button_held = False, mode_button_held = False,
      current_brightness = 52\<rparr>"

subsection \<open>The environment's operations\<close>

definition clock_gettime :: "env \<Rightarrow> timespec \<times> env" where
  "clock_gettime w = (clock w (clock_reads w), w\<lparr>clock_reads := Suc (clock_reads w)\<rparr>)"

definition system :: "command \<Rightarrow> env \<Rightarrow> env" where
  "system c w = w\<lparr>commands := commands w @ [c]\<rparr>"

definition print :: "message \<Rightarrow> env \<Rightarrow> env" where
  "print m w = w\<lparr>printed := printed w @ [m]\<rparr>"

text \<open>A read takes the head of the descriptor's queue; an empty queue would block.\<close>

definition read_fd :: "int \<Rightarrow> env \<Rightarrow> read_result \<times> env" where
  "read_fd fd w =
     (case pending w fd of
        [] \<Rightarrow> (Would_block, w)
      | r # rs \<Rightarrow> (r, w\<lparr>pending := (pending w)(fd := rs)\<rparr>))"

text \<open>\<open>open()\<close> and \<open>opendir()\<close> return the lowest descriptor that is not open.\<close>

definition lowest_free :: "int list \<Rightarrow> int" where
  "lowest_free fds =
     (case filter (\<lambda>n. n \<notin> set fds) (map int [0..<Suc (length fds)]) of
        [] \<Rightarrow> int (length fds)
      | n # _ \<Rightarrow> n)"

definition open_fd :: "env \<Rightarrow> int \<times> env" where
  "open_fd w = (let fd = lowest_free (open_fds w) in (fd, w\<lparr>open_fds := fd # open_fds w\<rparr>))"

definition close_fd :: "int \<Rightarrow> env \<Rightarrow> env" where
  "close_fd fd w = w\<lparr>open_fds := removeAll fd (open_fds w)\<rparr>"

subsection \<open>Elapsed milliseconds\<close>

text \<open>The expression
  \<^verbatim>\<open>(now.tv_sec - t.tv_sec) * 1000 + (now.tv_nsec - t.tv_nsec) / 1000000\<close>
  which the source writes three times.  C's \<open>/\<close> truncates towards zero, which is
  \<open>sdiv\<close>.\<close>

definition elapsed_ms :: "timespec \<Rightarrow> timespec \<Rightarrow> int" where
  "elapsed_ms now t =
     (tv_sec now - tv_sec t) * 1000 + (tv_nsec now - tv_nsec t) sdiv 1000000"

definition held_ms :: "timespec \<Rightarrow> monitor_state \<Rightarrow> int" where
  "held_ms now st = elapsed_ms now (power_press_time st)"

definition last_wake_ms :: "timespec \<Rightarrow> monitor_state \<Rightarrow> int" where
  "last_wake_ms now st = elapsed_ms now (last_wake_time st)"

text \<open>For comparison, the exact distance of two readings in nanoseconds, for readings
  whose nanosecond field is in range.\<close>

definition normalized :: "timespec \<Rightarrow> bool" where
  "normalized t = (0 \<le> tv_nsec t \<and> tv_nsec t < 1000000000)"

definition elapsed_ns :: "timespec \<Rightarrow> timespec \<Rightarrow> int" where
  "elapsed_ns now t = (tv_sec now - tv_sec t) * 1000000000 + (tv_nsec now - tv_nsec t)"

text \<open>At least, and at most, \<open>k\<close> milliseconds of exact time between two such readings.\<close>

definition at_least_ms :: "int \<Rightarrow> timespec \<Rightarrow> timespec \<Rightarrow> bool" where
  "at_least_ms k now t = (normalized now \<and> normalized t \<and> elapsed_ns now t \<ge> k * 1000000)"

definition at_most_ms :: "int \<Rightarrow> timespec \<Rightarrow> timespec \<Rightarrow> bool" where
  "at_most_ms k now t = (normalized now \<and> normalized t \<and> elapsed_ns now t \<le> k * 1000000)"

text \<open>The value written to the backlight: \<^verbatim>\<open>(int)(current_brightness * 255 / 100)\<close>.\<close>

definition backlight_value :: "int \<Rightarrow> int" where
  "backlight_value b = (b * 255) sdiv 100"

subsection \<open>One event\<close>

text \<open>The body of the \<open>while\<close> loop of \<open>input_monitor_check_hotkeys\<close>, for the event
  just read.  \<open>Continue\<close> stands for both \<open>continue\<close> and \<open>break\<close> out of the \<open>switch\<close>
  (the loop reads again); \<open>Return_true\<close> is the \<open>return true\<close> of the long press.
  \<open>backlight_on\<close> is the caller's \<open>extern bool\<close>.\<close>

datatype flow = Continue | Return_true

definition power_event :: "input_event \<Rightarrow> monitor_state \<Rightarrow> env \<Rightarrow> flow \<times> monitor_state \<times> env" where
  "power_event ev st w =
     (if ev_value ev = 1 \<and> \<not> power_button_held st then
        (let (t, w1) = clock_gettime w
         in (Continue, st\<lparr>power_press_time := t, power_button_held := True\<rparr>, w1))
      else if ev_value ev = 0 \<and> power_button_held st then
        (let (now, w1) = clock_gettime w;
             h = held_ms now st;
             st1 = st\<lparr>power_button_held := False\<rparr>
         in if h \<ge> 1750 then (Return_true, st1, w1)
            else if last_wake_ms now st1 < WAKE_DEBOUNCE_MS then (Continue, st1, w1)
            else (let (t, w2) = clock_gettime (system Suspend w1)
                  in (Continue, st1\<lparr>last_wake_time := t\<rparr>, w2)))
      else (Continue, st, w))"

definition volume_up_event :: "bool \<Rightarrow> input_event \<Rightarrow> monitor_state \<Rightarrow> env \<Rightarrow> flow \<times> monitor_state \<times> env" where
  "volume_up_event backlight_on ev st w =
     (if ev_value ev \<noteq> 1 then (Continue, st, w)
      else if mode_button_held st \<and> backlight_on then
        (if current_brightness st < 100 then
           (let st1 = st\<lparr>current_brightness := current_brightness st + 16\<rparr>
            in (Continue, st1, system (SetBrightness (backlight_value (current_brightness st1))) w))
         else (Continue, st, w))
      else (Continue, st, system VolumeUp w))"

definition volume_down_event :: "bool \<Rightarrow> input_event \<Rightarrow> monitor_state \<Rightarrow> env \<Rightarrow> flow \<times> monitor_state \<times> env" where
  "volume_down_event backlight_on ev st w =
     (if ev_value ev \<noteq> 1 then (Continue, st, w)
      else if mode_button_held st \<and> backlight_on then
        (if current_brightness st > 4 then
           (let st1 = st\<lparr>current_brightness := current_brightness st - 16\<rparr>
            in (Continue, st1, system (SetBrightness (backlight_value (current_brightness st1))) w))
         else (Continue, st, w))
      else (Continue, st, system VolumeDown w))"

definition lid_event :: "input_event \<Rightarrow> monitor_state \<Rightarrow> env \<Rightarrow> flow \<times> monitor_state \<times> env" where
  "lid_event ev st w =
     (if ev_value ev = 1 then
        (let (t, w1) = clock_gettime (system Suspend w)
         in (Continue, st\<lparr>last_wake_time := t\<rparr>, w1))
      else (Continue, st, w))"

definition handle_event :: "bool \<Rightarrow> input_event \<Rightarrow> monitor_state \<Rightarrow> env \<Rightarrow> flow \<times> monitor_state \<times> env" where
  "handle_event backlight_on ev st w =
     (if ev_type ev \<noteq> EV_KEY \<and> ev_type ev \<noteq> EV_SW then (Continue, st, w)
      else if ev_code ev = BTN_MODE then
        (Continue, st\<lparr>mode_button_held := (ev_value ev = 1 \<or> ev_value ev = 2)\<rparr>, w)
      else if ev_code ev = KEY_POWER then power_event ev st w
      else if ev_code ev = KEY_VOLUMEUP then volume_up_event backlight_on ev st w
      else if ev_code ev = KEY_VOLUMEDOWN then volume_down_event backlight_on ev st w
      else if ev_code ev = SW_LID then lid_event ev st w
      else (Continue, st, w))"

subsection \<open>One tick\<close>

text \<open>The \<open>while\<close> loop on one descriptor: it reads until a read gives anything but a
  whole event, or until an event makes the function return true.  The boolean says
  whether the function returned from inside the loop.\<close>

function drain :: "bool \<Rightarrow> int \<Rightarrow> monitor_state \<Rightarrow> env \<Rightarrow> bool \<times> monitor_state \<times> env" where
  "drain backlight_on fd st w =
     (let (r, w1) = read_fd fd w
      in case r of
           Full ev \<Rightarrow>
             (let (f, st', w') = handle_event backlight_on ev st w1
              in case f of
                   Return_true \<Rightarrow> (True, st', w')
                 | Continue \<Rightarrow> drain backlight_on fd st' w')
         | _ \<Rightarrow> (False, st, w1))"
  by pat_completeness auto
termination
proof (relation "measure (\<lambda>(b, fd, st, w). length (pending w fd))")
  show "wf (measure (\<lambda>(b, fd, st, w). length (pending w fd)))"
    by simp
next
  fix backlight_on :: bool and fd :: int and st :: monitor_state and w :: env
    and x :: "read_result \<times> env" and r w1 ev
    and xa :: "flow \<times> monitor_state \<times> env" and f y st' w'
  assume "x = read_fd fd w" "(r, w1) = x" "r = Full ev"
    "xa = handle_event backlight_on ev st w1" "(f, y) = xa" "(st', w') = y" "f = Continue"
  then have rd: "read_fd fd w = (Full ev, w1)"
    and h: "handle_event backlight_on ev st w1 = (f, st', w')"
    by simp_all
  from rd have "length (pending w1 fd) < length (pending w fd)"
    by (auto simp: read_fd_def split: list.splits)
  moreover from h have "pending w' = pending w1"
    by (auto simp: handle_event_def power_event_def volume_up_event_def volume_down_event_def
          lid_event_def clock_gettime_def system_def Let_def split: if_splits)
  ultimately show "((backlight_on, fd, st', w'), (backlight_on, fd, st, w))
      \<in> measure (\<lambda>(b, fd, st, w). length (pending w fd))"
    by simp
qed

declare drain.simps [simp del]

text \<open>The \<open>for\<close> loop over \<open>input_fds[0 .. num_devices - 1]\<close>; neither the table nor
  the count changes while it runs, so the loop is a recursion on the slots it visits.\<close>

fun poll_fds :: "bool \<Rightarrow> int list \<Rightarrow> monitor_state \<Rightarrow> env \<Rightarrow> bool \<times> monitor_state \<times> env" where
  "poll_fds backlight_on [] st w = (False, st, w)"
| "poll_fds backlight_on (fd # fds) st w =
     (if fd < 0 then poll_fds backlight_on fds st w
      else (let (returned, st', w') = drain backlight_on fd st w
            in if returned then (True, st', w')
               else poll_fds backlight_on fds st' w'))"

definition input_monitor_check_hotkeys :: "bool \<Rightarrow> monitor_state \<Rightarrow> env \<Rightarrow> bool \<times> monitor_state \<times> env" where
  "input_monitor_check_hotkeys backlight_on st w =
     (let (returned, st', w') =
            poll_fds backlight_on (take (num_devices st) (input_fds st)) st w
      in if returned then (True, st', w')
         else if power_button_held st' then
           (let (now, w'') = clock_gettime w'
            in if held_ms now st' \<ge> 1750 then (True, st', w'') else (False, st', w''))
         else (False, st', w'))"

subsection \<open>Cleanup\<close>

text \<open>\<open>input_monitor_cleanup\<close> closes the descriptors of the first \<open>num_devices\<close> slots
  that are not negative and sets those slots to \<open>-1\<close>.\<close>

fun close_slots :: "nat \<Rightarrow> nat \<Rightarrow> int list \<Rightarrow> env \<Rightarrow> int list \<times> env" where
  "close_slots i 0 fds w = (fds, w)"
| "close_slots i (Suc n) fds w =
     (if i < length fds \<and> fds ! i \<ge> 0
      then close_slots (Suc i) n (fds[i := -1]) (close_fd (fds ! i) w)
      else close_slots (Suc i) n fds w)"

definition input_monitor_cleanup :: "monitor_state \<Rightarrow> env \<Rightarrow> monitor_state \<times> env" where
  "input_monitor_cleanup st w =
     (let (fds, w') = close_slots 0 (num_devices st) (input_fds st) w
      in (st\<lparr>input_fds := fds, num_devices := 0,
              mode_button_held := False, power_button_held := False\<rparr>, w'))"

subsection \<open>Initialisation\<close>

text \<open>\<open>strstr(haystack, needle) != NULL\<close>: the needle occurs in the haystack as a
  contiguous run of bytes.\<close>

fun starts_with :: "string \<Rightarrow> string \<Rightarrow> bool" where
  "starts_with s [] = True"
| "starts_with [] (c # cs) = False"
| "starts_with (d # ds) (c # cs) = (d = c \<and> starts_with ds cs)"

fun strstr :: "string \<Rightarrow> string \<Rightarrow> bool" where
  "strstr [] needle = (needle = [])"
| "strstr (c # cs) needle = (starts_with (c # cs) needle \<or> strstr cs needle)"

text \<open>The name the scan compares: the buffer starts as \<open>"Unknown"\<close> and the ioctl, when
  it succeeds, overwrites it.\<close>

definition node_name :: "dev_node \<Rightarrow> string" where
  "node_name nd = (case evname nd of None \<Rightarrow> ''Unknown'' | Some n \<Rightarrow> n)"

text \<open>The \<open>readdir\<close> loop of \<open>find_device_by_name\<close>; \<open>dir\<close> is the descriptor behind the
  \<open>DIR\<close> stream, which \<open>closedir\<close> closes.\<close>

fun scan_dir :: "string \<Rightarrow> int \<Rightarrow> (string \<times> dev_node) list \<Rightarrow> env \<Rightarrow> int \<times> env" where
  "scan_dir device_name dir [] w = (-1, close_fd dir w)"
| "scan_dir device_name dir ((d_name, nd) # es) w =
     (if take 5 d_name \<noteq> ''event'' then scan_dir device_name dir es w
      else if \<not> can_open nd then scan_dir device_name dir es w
      else (let (fd, w1) = open_fd w
            in if strstr (node_name nd) device_name
               then (fd, close_fd dir
                           (print (Found_input_device (''/dev/input/'' @ d_name) (node_name nd)) w1))
               else scan_dir device_name dir es (close_fd fd w1)))"

definition find_device_by_name :: "string \<Rightarrow> env \<Rightarrow> int \<times> env" where
  "find_device_by_name device_name w =
     (case dev_input w of
        None \<Rightarrow> (-1, w)
      | Some es \<Rightarrow> (let (dir, w1) = open_fd w in scan_dir device_name dir es w1))"

definition device_names :: "string list" where
  "device_names = [''joypad'', ''pwrkey'', ''gpio-keys'']"

text \<open>The \<open>for\<close> loop of \<open>input_monitor_init\<close> over the role names still to try.\<close>

fun init_loop :: "string list \<Rightarrow> monitor_state \<Rightarrow> env \<Rightarrow> monitor_state \<times> env" where
  "init_loop [] st w = (st, w)"
| "init_loop (name # names) st w =
     (let (fd, w1) = find_device_by_name name w
      in if fd \<ge> 0 \<and> num_devices st < MAX_INPUT_DEVICES
         then init_loop names
                (st\<lparr>input_fds := (input_fds st)[num_devices st := fd],
                    num_devices := Suc (num_devices st)\<rparr>) w1
         else init_loop names st (print (Warning_could_not_find name) w1))"

definition input_monitor_init :: "monitor_state \<Rightarrow> env \<Rightarrow> bool \<times> monitor_state \<times> env" where
  "input_monitor_init st w =
     (let (st', w') = init_loop device_names (st\<lparr>num_devices := 0\<rparr>) w
      in if num_devices st' = 0 then (False, st', print Failed_to_open_any w')
         else (True, st', print (Monitoring (num_devices st')) w'))"

subsection \<open>Vocabulary of the statements\<close>

text \<open>The reading the next \<open>clock_gettime\<close> returns, the reading the last one returned,
  and the environment after a reading.\<close>

definition next_reading :: "env \<Rightarrow> timespec" where
  "next_reading w = clock w (clock_reads w)"

definition last_reading :: "env \<Rightarrow> timespec" where
  "last_reading w = clock w (clock_reads w - 1)"

definition after_reading :: "env \<Rightarrow> env" where
  "after_reading w = w\<lparr>clock_reads := Suc (clock_reads w)\<rparr>"

text \<open>Events that pass the type filter of the loop, by the case of the \<open>switch\<close> they
  reach.\<close>

definition key_or_switch :: "input_event \<Rightarrow> bool" where
  "key_or_switch ev = (ev_type ev = EV_KEY \<or> ev_type ev = EV_SW)"

definition power_press :: "input_event \<Rightarrow> bool" where
  "power_press ev = (key_or_switch ev \<and> ev_code ev = KEY_POWER \<and> ev_value ev = 1)"

definition power_release :: "input_event \<Rightarrow> bool" where
  "power_release ev = (key_or_switch ev \<and> ev_code ev = KEY_POWER \<and> ev_value ev = 0)"

definition volume_up_press :: "input_event \<Rightarrow> bool" where
  "volume_up_press ev = (key_or_switch ev \<and> ev_code ev = KEY_VOLUMEUP \<and> ev_value ev = 1)"

definition volume_down_press :: "input_event \<Rightarrow> bool" where
  "volume_down_press ev = (key_or_switch ev \<and> ev_code ev = KEY_VOLUMEDOWN \<and> ev_value ev = 1)"

definition lid_close :: "input_event \<Rightarrow> bool" where
  "lid_close ev = (key_or_switch ev \<and> ev_code ev = SW_LID \<and> ev_value ev = 1)"

text \<open>A slot of the table is idle in an environment when the loop skips it or its first
  read would block.\<close>

definition idle_slot :: "env \<Rightarrow> int \<Rightarrow> bool" where
  "idle_slot w fd = (fd < 0 \<or> pending w fd = [])"

text \<open>The environment after one read on a descriptor.\<close>

definition after_read :: "int \<Rightarrow> env \<Rightarrow> env" where
  "after_read fd w = w\<lparr>pending := (pending w)(fd := tl (pending w fd))\<rparr>"

text \<open>The slots of the table that the loop of a tick visits, and a queue that holds
  events only, so that the read after its last event would block.\<close>

definition slots :: "monitor_state \<Rightarrow> int list" where
  "slots st = take (num_devices st) (input_fds st)"

definition only_events :: "read_result list \<Rightarrow> bool" where
  "only_events q = list_all (\<lambda>r. case r of Full ev \<Rightarrow> True | _ \<Rightarrow> False) q"

text \<open>An entry of \<open>/dev/input\<close> that the scan for a role name accepts, and a role that
  resolves: the directory can be read and holds such an entry.  The warnings among the
  lines printed.\<close>

definition matches :: "string \<Rightarrow> string \<times> dev_node \<Rightarrow> bool" where
  "matches device_name e =
     (take 5 (fst e) = ''event'' \<and> can_open (snd e) \<and> strstr (node_name (snd e)) device_name)"

definition resolves :: "env \<Rightarrow> string \<Rightarrow> bool" where
  "resolves w device_name =
     (case dev_input w of None \<Rightarrow> False | Some es \<Rightarrow> list_ex (matches device_name) es)"

fun warnings :: "message list \<Rightarrow> string list" where
  "warnings [] = []"
| "warnings (Warning_could_not_find n # ms) = n # warnings ms"
| "warnings (m # ms) = warnings ms"

text \<open>The results of consecutive calls of \<open>input_monitor_check_hotkeys\<close>, each in its
  environment, the state passing from one call to the next.\<close>

fun call_results :: "(bool \<times> env) list \<Rightarrow> monitor_state \<Rightarrow> bool list" where
  "call_results [] st = []"
| "call_results ((backlight_on, w) # cs) st =
     (case input_monitor_check_hotkeys backlight_on st w of
        (r, st', w') \<Rightarrow> r # call_results cs st')"

text \<open>A queue in which no event is a release of the power button.\<close>

definition no_release :: "read_result list \<Rightarrow> bool" where
  "no_release q = list_all (\<lambda>r. case r of Full ev \<Rightarrow> \<not> power_release ev | _ \<Rightarrow> True) q"

text \<open>The levels the source's comment names: 4 to 100 in 7 steps of 16.\<close>

definition brightness_steps :: "int set" where
  "brightness_steps = {4, 20, 36, 52, 68, 84, 100}"

text \<open>A run of the monitor is a sequence of calls of its three functions, each in the
  environment it finds at that moment; the state is what the calls leave in the
  variables of the file.\<close>

datatype call = Init env | Tick bool env | Cleanup env

fun run_call :: "call \<Rightarrow> monitor_state \<Rightarrow> monitor_state" where
  "run_call (Init w) st = fst (snd (input_monitor_init st w))"
| "run_call (Tick backlight_on w) st = fst (snd (input_monitor_check_hotkeys backlight_on st w))"
| "run_call (Cleanup w) st = fst (input_monitor_cleanup st w)"

definition run :: "call list \<Rightarrow> monitor_state \<Rightarrow> monitor_state" where
  "run cs st = fold run_call cs st"

text \<open>Concrete inputs for the examples: a time given in milliseconds, an event, and an
  environment with a given clock and given queues, nothing run or printed yet and the
  three standard descriptors open.\<close>

definition at_ms :: "int \<Rightarrow> timespec" where
  "at_ms n = \<lparr>tv_sec = n div 1000, tv_nsec = (n mod 1000) * 1000000\<rparr>"

definition event :: "16 word \<Rightarrow> 16 word \<Rightarrow> 32 word \<Rightarrow> input_event" where
  "event t c v = \<lparr>ev_type = t, ev_code = c, ev_value = v\<rparr>"

definition env_of :: "(nat \<Rightarrow> timespec) \<Rightarrow> (int \<Rightarrow> read_result list) \<Rightarrow> env" where
  "env_of c p =
     \<lparr>clock = c, clock_reads = 0, pending = p, commands = [], dev_input = None,
      open_fds = [0, 1, 2], printed = []\<rparr>"

text \<open>A clock whose first reading is \<open>t\<close> ms and which advances 1 ms per reading, a
  clock that stands at \<open>t\<close>, and queues given per descriptor, empty elsewhere.\<close>

definition clock_from :: "int \<Rightarrow> nat \<Rightarrow> timespec" where
  "clock_from t n = at_ms (t + int n)"

definition clock_at :: "timespec \<Rightarrow> nat \<Rightarrow> timespec" where
  "clock_at t n = t"

definition queues :: "(int \<times> read_result list) list \<Rightarrow> int \<Rightarrow> read_result list" where
  "queues qs fd = (case map_of qs fd of None \<Rightarrow> [] | Some q \<Rightarrow> q)"

text \<open>A node that opens and reports the given name, and an environment whose
  \<open>/dev/input\<close> holds the given entries.\<close>

definition node :: "string \<Rightarrow> dev_node" where
  "node n = \<lparr>can_open = True, evname = Some n\<rparr>"

definition env_with_devices :: "(string \<times> dev_node) list \<Rightarrow> env" where
  "env_with_devices es = (env_of (clock_from 0) (queues []))\<lparr>dev_input := Some es\<rparr>"

text \<open>The monitor after an initialisation that found the descriptors \<open>fds\<close>, and the
  same with the power button held since \<open>t\<close> and the last suspend at \<open>u\<close>.\<close>

definition monitoring :: "int list \<Rightarrow> monitor_state" where
  "monitoring fds =
     initial_state\<lparr>input_fds := fds @ drop (length fds) [-1, -1, -1],
                   num_devices := length fds\<rparr>"

definition held_since :: "int list \<Rightarrow> timespec \<Rightarrow> timespec \<Rightarrow> monitor_state" where
  "held_since fds t u =
     (monitoring fds)\<lparr>power_button_held := True, power_press_time := t, last_wake_time := u\<rparr>"

section \<open>Properties\<close>

subsection \<open>Elapsed milliseconds and exact time\<close>

text \<open>The milliseconds the source computes lie between the exact distance rounded down and
  rounded up to whole milliseconds: the quotient of the nanosecond fields is truncated
  towards zero, and that difference can be negative.  So a distance of at least 1750 ms
  in exact time is at least 1750 in the source's measure.\<close>

lemma elapsed_ms_between:
  assumes "normalized now" and "normalized t"
  shows "elapsed_ns now t div 1000000 \<le> elapsed_ms now t
       \<and> elapsed_ms now t * 1000000 < elapsed_ns now t + 1000000"
proof -
  define d where "d = tv_nsec now - tv_nsec t"
  define S where "S = tv_sec now - tv_sec t"
  have ns: "elapsed_ns now t = S * 1000 * 1000000 + d"
    by (simp add: elapsed_ns_def d_def S_def)
  have fl: "elapsed_ns now t div 1000000 = S * 1000 + d div 1000000"
    unfolding ns by simp
  show ?thesis
  proof (cases "0 \<le> d")
    case True
    then have "d sdiv 1000000 = d div 1000000"
      by (cases "d = 0") (simp_all add: signed_divide_int_def sgn_if)
    then have e: "elapsed_ms now t = S * 1000 + d div 1000000"
      by (simp add: elapsed_ms_def d_def S_def)
    have "d div 1000000 * 1000000 \<le> d" by simp
    with e fl ns show ?thesis by simp
  next
    case False
    then have "d sdiv 1000000 = - ((- d) div 1000000)"
      by (simp add: signed_divide_int_def sgn_if)
    then have e: "elapsed_ms now t = S * 1000 - (- d) div 1000000"
      by (simp add: elapsed_ms_def d_def S_def)
    have "d div 1000000 \<le> - ((- d) div 1000000)" by linarith
    moreover have "(- d) div 1000000 * 1000000 > - d - 1000000"
      by linarith
    ultimately show ?thesis using e fl ns by simp
  qed
qed

lemma long_hold_in_real_time:
  assumes "normalized now" and "normalized t" and "elapsed_ns now t \<ge> 1750 * 1000000"
  shows "elapsed_ms now t \<ge> 1750"
  using elapsed_ms_between [OF assms(1,2)] assms(3) by linarith

lemma at_least_ms_measure: "at_least_ms k now t \<Longrightarrow> k \<le> elapsed_ms now t"
proof -
  assume a: "at_least_ms k now t"
  then have "normalized now" "normalized t" and ns: "k * 1000000 \<le> elapsed_ns now t"
    by (simp_all add: at_least_ms_def)
  from elapsed_ms_between [OF this(1,2)]
  have "elapsed_ns now t div 1000000 \<le> elapsed_ms now t" by simp
  moreover from ns have "k \<le> elapsed_ns now t div 1000000" by linarith
  ultimately show ?thesis by simp
qed

lemma at_most_ms_measure: "at_most_ms k now t \<Longrightarrow> elapsed_ms now t \<le> k"
proof -
  assume a: "at_most_ms k now t"
  then have "normalized now" "normalized t" and ns: "elapsed_ns now t \<le> k * 1000000"
    by (simp_all add: at_most_ms_def)
  from elapsed_ms_between [OF this(1,2)]
  have "elapsed_ms now t * 1000000 < elapsed_ns now t + 1000000" by simp
  with ns show ?thesis by linarith
qed

lemma measure_exact_lower:
  "normalized now \<Longrightarrow> normalized t \<Longrightarrow> k \<le> elapsed_ms now t \<Longrightarrow>
   (k - 1) * 1000000 < elapsed_ns now t"
proof -
  assume n: "normalized now" "normalized t" and k: "k \<le> elapsed_ms now t"
  from elapsed_ms_between [OF n]
  have "elapsed_ms now t * 1000000 < elapsed_ns now t + 1000000" by simp
  moreover from k have "k * 1000000 \<le> elapsed_ms now t * 1000000" by simp
  ultimately show ?thesis by (simp add: left_diff_distrib)
qed

subsection \<open>Events reach their case of the switch\<close>

lemma codes_distinct [simp]:
  "BTN_MODE \<noteq> KEY_POWER" "KEY_POWER \<noteq> BTN_MODE"
  "KEY_VOLUMEUP \<noteq> BTN_MODE" "KEY_VOLUMEUP \<noteq> KEY_POWER"
  "KEY_VOLUMEDOWN \<noteq> BTN_MODE" "KEY_VOLUMEDOWN \<noteq> KEY_POWER" "KEY_VOLUMEDOWN \<noteq> KEY_VOLUMEUP"
  "SW_LID \<noteq> BTN_MODE" "SW_LID \<noteq> KEY_POWER" "SW_LID \<noteq> KEY_VOLUMEUP" "SW_LID \<noteq> KEY_VOLUMEDOWN"
  by (simp_all add: BTN_MODE_def KEY_POWER_def KEY_VOLUMEUP_def KEY_VOLUMEDOWN_def SW_LID_def)

lemma handle_power:
  "key_or_switch ev \<Longrightarrow> ev_code ev = KEY_POWER \<Longrightarrow>
   handle_event b ev st w = power_event ev st w"
  by (auto simp: handle_event_def key_or_switch_def)

lemma handle_volume_up:
  "key_or_switch ev \<Longrightarrow> ev_code ev = KEY_VOLUMEUP \<Longrightarrow>
   handle_event b ev st w = volume_up_event b ev st w"
  by (auto simp: handle_event_def key_or_switch_def)

lemma handle_volume_down:
  "key_or_switch ev \<Longrightarrow> ev_code ev = KEY_VOLUMEDOWN \<Longrightarrow>
   handle_event b ev st w = volume_down_event b ev st w"
  by (auto simp: handle_event_def key_or_switch_def)

lemma handle_lid:
  "key_or_switch ev \<Longrightarrow> ev_code ev = SW_LID \<Longrightarrow>
   handle_event b ev st w = lid_event ev st w"
  by (auto simp: handle_event_def key_or_switch_def)

subsection \<open>The power button\<close>

lemma power_press_idle:
  "power_press ev \<Longrightarrow> \<not> power_button_held st \<Longrightarrow>
   handle_event b ev st w =
     (Continue, st\<lparr>power_press_time := next_reading w, power_button_held := True\<rparr>,
      after_reading w)"
  by (simp add: power_press_def handle_power power_event_def clock_gettime_def
      next_reading_def after_reading_def)

lemma release_long:
  "power_release ev \<Longrightarrow> power_button_held st \<Longrightarrow> held_ms (next_reading w) st \<ge> 1750 \<Longrightarrow>
   handle_event b ev st w = (Return_true, st\<lparr>power_button_held := False\<rparr>, after_reading w)"
  by (simp add: power_release_def handle_power power_event_def clock_gettime_def
      next_reading_def after_reading_def)

lemma release_debounced:
  "power_release ev \<Longrightarrow> power_button_held st \<Longrightarrow> held_ms (next_reading w) st < 1750 \<Longrightarrow>
   last_wake_ms (next_reading w) st < 500 \<Longrightarrow>
   handle_event b ev st w = (Continue, st\<lparr>power_button_held := False\<rparr>, after_reading w)"
  by (simp add: power_release_def handle_power power_event_def clock_gettime_def
      next_reading_def after_reading_def last_wake_ms_def WAKE_DEBOUNCE_MS_def)

lemma release_suspend:
  "power_release ev \<Longrightarrow> power_button_held st \<Longrightarrow> held_ms (next_reading w) st < 1750 \<Longrightarrow>
   last_wake_ms (next_reading w) st \<ge> 500 \<Longrightarrow>
   handle_event b ev st w =
     (Continue,
      st\<lparr>power_button_held := False, last_wake_time := next_reading (after_reading w)\<rparr>,
      after_reading (after_reading (system Suspend w)))"
  by (simp add: power_release_def handle_power power_event_def clock_gettime_def
      next_reading_def after_reading_def last_wake_ms_def WAKE_DEBOUNCE_MS_def system_def)

lemma lid_close_suspends:
  "lid_close ev \<Longrightarrow>
   handle_event b ev st w =
     (Continue, st\<lparr>last_wake_time := next_reading w\<rparr>, after_reading (system Suspend w))"
  by (simp add: lid_close_def handle_lid lid_event_def clock_gettime_def system_def
      next_reading_def after_reading_def)

lemma suspend_sets_last_wake:
  assumes "handle_event b ev st w = (f, st', w')" and "commands w' = commands w @ [Suspend]"
  shows "last_wake_time st' = last_reading w'"
  using assms
  by (auto simp: handle_event_def power_event_def volume_up_event_def volume_down_event_def
        lid_event_def clock_gettime_def system_def last_reading_def Let_def split: if_splits)

lemma last_wake_changes_on_suspend:
  assumes "handle_event b ev st w = (f, st', w')" and "last_wake_time st' \<noteq> last_wake_time st"
  shows "commands w' = commands w @ [Suspend]"
  using assms
  by (auto simp: handle_event_def power_event_def volume_up_event_def volume_down_event_def
        lid_event_def clock_gettime_def system_def Let_def split: if_splits)

lemma power_command_debounced:
  assumes "handle_event b ev st w = (f, st', w')" and "ev_code ev = KEY_POWER"
    and "commands w' \<noteq> commands w"
  shows "last_wake_ms (next_reading w) st \<ge> WAKE_DEBOUNCE_MS \<and> commands w' = commands w @ [Suspend]"
  using assms
  by (auto simp: handle_event_def power_event_def clock_gettime_def system_def Let_def
        next_reading_def last_wake_ms_def split: if_splits)

lemma Return_true_is_release:
  "handle_event b ev st w = (Return_true, st', w') \<Longrightarrow> power_release ev"
  by (auto simp: handle_event_def power_event_def volume_up_event_def volume_down_event_def
        lid_event_def clock_gettime_def Let_def power_release_def key_or_switch_def
        split: if_splits)

subsection \<open>The loops of a tick\<close>

lemma handle_event_pending:
  "handle_event backlight_on ev st w = (f, st', w') \<Longrightarrow> pending w' = pending w"
  by (auto simp: handle_event_def power_event_def volume_up_event_def volume_down_event_def
        lid_event_def clock_gettime_def system_def Let_def split: if_splits)

lemma read_fd_Full:
  "read_fd fd w = (Full ev, w1) \<Longrightarrow> length (pending w1 fd) < length (pending w fd)"
  by (auto simp: read_fd_def split: list.splits)


lemma drain_idle: "pending w fd = [] \<Longrightarrow> drain b fd st w = (False, st, w)"
  by (subst drain.simps) (simp add: read_fd_def)

lemma drain_Full:
  "pending w fd = Full ev # q \<Longrightarrow>
   drain b fd st w =
     (case handle_event b ev st (after_read fd w) of
        (Return_true, st', w') \<Rightarrow> (True, st', w')
      | (Continue, st', w') \<Rightarrow> drain b fd st' w')"
  by (subst drain.simps) (simp add: read_fd_def after_read_def split: prod.splits flow.splits)

lemma drain_stop:
  "pending w fd = r # q \<Longrightarrow> \<forall>ev. r \<noteq> Full ev \<Longrightarrow>
   drain b fd st w = (False, st, after_read fd w)"
  by (subst drain.simps) (simp add: read_fd_def after_read_def split: read_result.splits)

lemma poll_fds_idle:
  "\<forall>x\<in>set pre. idle_slot w x \<Longrightarrow> poll_fds b (pre @ fds) st w = poll_fds b fds st w"
  by (induction pre) (auto simp: idle_slot_def drain_idle)

lemma poll_fds_all_idle:
  "\<forall>x\<in>set fds. idle_slot w x \<Longrightarrow> poll_fds b fds st w = (False, st, w)"
  using poll_fds_idle [of fds w b "[]" st] by simp

lemma check_hotkeys_idle_held:
  "power_button_held st \<Longrightarrow> \<forall>x\<in>set (slots st). idle_slot v x \<Longrightarrow>
   input_monitor_check_hotkeys b st v = (held_ms (next_reading v) st \<ge> 1750, st, after_reading v)"
  by (auto simp: input_monitor_check_hotkeys_def slots_def poll_fds_all_idle clock_gettime_def
        next_reading_def after_reading_def)

lemma check_hotkeys_first_event:
  assumes "take (num_devices st) (input_fds st) = pre @ fd # post"
    and "\<forall>x\<in>set pre. idle_slot w x" and "0 \<le> fd" and "pending w fd = Full ev # q"
    and "handle_event b ev st (after_read fd w) = (Return_true, st', w')"
  shows "input_monitor_check_hotkeys b st w = (True, st', w')"
  using assms
  by (simp add: input_monitor_check_hotkeys_def poll_fds_idle drain_Full)

text \<open>A property of the state that every event preserves is preserved by each loop and
  by the whole call.\<close>

lemma drain_invariant:
  assumes step: "\<And>b ev st w f st' w'. P st \<Longrightarrow> handle_event b ev st w = (f, st', w') \<Longrightarrow> P st'"
  shows "P st \<Longrightarrow> drain b fd st w = (r, st', w') \<Longrightarrow> P st'"
proof (induction b fd st w rule: drain.induct)
  case (1 b fd st w)
  show ?case
  proof (cases "read_fd fd w")
    case (Pair rr w1)
    show ?thesis
    proof (cases rr)
      case (Full ev)
      obtain f s2 w2 where h: "handle_event b ev st w1 = (f, s2, w2)"
        by (cases "handle_event b ev st w1") auto
      have P2: "P s2" using step [OF "1.prems"(1) h] .
      show ?thesis
      proof (cases f)
        case Continue
        from "1.prems"(2) Pair Full h Continue have "drain b fd s2 w2 = (r, st', w')"
          by (subst (asm) drain.simps) simp
        with "1.IH" [OF Pair [symmetric] refl Full h [symmetric] refl refl Continue P2]
        show ?thesis by simp
      next
        case Return_true
        from "1.prems"(2) Pair Full h Return_true have "st' = s2"
          by (subst (asm) drain.simps) simp
        with P2 show ?thesis by simp
      qed
    next
      case Would_block
      with "1.prems" Pair show ?thesis by (subst (asm) drain.simps) simp
    next
      case Read_error
      with "1.prems" Pair show ?thesis by (subst (asm) drain.simps) simp
    next
      case Short_read
      with "1.prems" Pair show ?thesis by (subst (asm) drain.simps) simp
    qed
  qed
qed

lemma poll_fds_invariant:
  assumes step: "\<And>b ev st w f st' w'. P st \<Longrightarrow> handle_event b ev st w = (f, st', w') \<Longrightarrow> P st'"
  shows "P st \<Longrightarrow> poll_fds b fds st w = (r, st', w') \<Longrightarrow> P st'"
proof (induction fds arbitrary: st w)
  case Nil
  then show ?case by simp
next
  case (Cons fd fds)
  show ?case
  proof (cases "fd < 0")
    case True
    with Cons show ?thesis by simp
  next
    case False
    obtain r1 s1 w1 where d: "drain b fd st w = (r1, s1, w1)"
      by (cases "drain b fd st w") auto
    have P1: "P s1" using drain_invariant [of P, OF step Cons.prems(1) d] .
    show ?thesis
    proof (cases r1)
      case True
      with Cons.prems(2) False d P1 show ?thesis by simp
    next
      case r1: False
      with Cons.prems(2) False d have "poll_fds b fds s1 w1 = (r, st', w')" by simp
      with Cons.IH [OF P1] show ?thesis by simp
    qed
  qed
qed

lemma check_hotkeys_invariant:
  assumes step: "\<And>b ev st w f st' w'. P st \<Longrightarrow> handle_event b ev st w = (f, st', w') \<Longrightarrow> P st'"
    and "P st" and "input_monitor_check_hotkeys b st w = (r, st', w')"
  shows "P st'"
proof -
  obtain r1 s1 w1 where p: "poll_fds b (take (num_devices st) (input_fds st)) st w = (r1, s1, w1)"
    by (cases "poll_fds b (take (num_devices st) (input_fds st)) st w") auto
  have "P s1" using poll_fds_invariant [of P, OF step assms(2) p] .
  moreover have "st' = s1"
    using assms(3) p
    by (auto simp: input_monitor_check_hotkeys_def Let_def split: if_splits prod.splits)
  ultimately show ?thesis by simp
qed

subsection \<open>Press and release of the power button\<close>

text \<open>
  \<^bold>\<open>Claim C1\<close>, as stated, fails in one point: a pair held for 1750 ms or more does not
  give exactly one signal.  One press, read at 0 ms, followed by two calls that find no
  event, at 1800 ms and at 1850 ms, and by the call that reads the release, at 1900 ms:
  the last three calls all return true.
\<close>

theorem one_press_three_signals:
  "call_results
     [(True, env_of (clock_from 0) (queues [(3, [Full (event EV_KEY KEY_POWER 1)])])),
      (True, env_of (clock_from 1800) (queues [])),
      (True, env_of (clock_from 1850) (queues [])),
      (True, env_of (clock_from 1900) (queues [(3, [Full (event EV_KEY KEY_POWER 0)])]))]
     (monitoring [3])
   = [False, True, True, True]"
  by code_simp

text \<open>
  \<^bold>\<open>Claim C1, amended.\<close>  Take a press of the power button handled while the button was
  not held (in state \<open>st0\<close>, at the clock reading \<open>next_reading w0\<close>) and a release handled
  in any later state \<open>st\<close> that still has the power fields the press left.  If at least
  1750 ms lie between the two readings, in exact time or in the source's millisecond
  measure, the release makes the function return true; it clears \<open>power_button_held\<close>,
  takes one clock reading and does nothing else: no command is run, so no suspend, and
  \<open>last_wake_time\<close> is neither read nor written, whatever its value.  In particular the
  call whose first event is that release returns true.  That signal need not be the
  only one of the pair: a call made while the button is still held, and which finds no
  event, returns true as well as soon as the source's measure of the time since the press
  has reached 1750, and leaves the state as it was.
\<close>

theorem long_press_release_shutdown:
  assumes "power_press p" and "power_release r"
    and "\<not> power_button_held st0"
    and "handle_event b0 p st0 w0 = (f, st1, w1)"
    and "power_button_held st = power_button_held st1"
    and "power_press_time st = power_press_time st1"
    and "elapsed_ms (next_reading w) (next_reading w0) \<ge> 1750
         \<or> at_least_ms 1750 (next_reading w) (next_reading w0)"
  shows "handle_event b r st w = (Return_true, st\<lparr>power_button_held := False\<rparr>, after_reading w)
    \<and> (slots st = pre @ fd # post \<and> (\<forall>x\<in>set pre. idle_slot w x)
         \<and> 0 \<le> fd \<and> pending w fd = Full r # q
       \<longrightarrow> input_monitor_check_hotkeys b st w
             = (True, st\<lparr>power_button_held := False\<rparr>, after_reading (after_read fd w)))
    \<and> ((\<forall>x\<in>set (slots st). idle_slot v x)
       \<longrightarrow> input_monitor_check_hotkeys b st v
             = (elapsed_ms (next_reading v) (next_reading w0) \<ge> 1750, st, after_reading v))"
proof -
  from assms(1,3,4)
  have "st1 = st0\<lparr>power_press_time := next_reading w0, power_button_held := True\<rparr>"
    by (simp add: power_press_idle)
  with assms(5,6) have held: "power_button_held st" and t: "power_press_time st = next_reading w0"
    by simp_all
  have m: "elapsed_ms (next_reading w) (next_reading w0) \<ge> 1750"
    using assms(7) at_least_ms_measure by blast
  have long: "held_ms (next_reading w') st \<ge> 1750" if "next_reading w' = next_reading w" for w'
    using that t m by (simp add: held_ms_def)
  have ev: "handle_event b r st w = (Return_true, st\<lparr>power_button_held := False\<rparr>, after_reading w)"
    using release_long [OF assms(2) held long] by simp
  have "next_reading (after_read fd w) = next_reading w"
    by (simp add: next_reading_def after_read_def)
  then have "handle_event b r st (after_read fd w)
      = (Return_true, st\<lparr>power_button_held := False\<rparr>, after_reading (after_read fd w))"
    using release_long [OF assms(2) held long] by simp
  then have first: "slots st = pre @ fd # post \<and> (\<forall>x\<in>set pre. idle_slot w x)
         \<and> 0 \<le> fd \<and> pending w fd = Full r # q
       \<longrightarrow> input_monitor_check_hotkeys b st w
             = (True, st\<lparr>power_button_held := False\<rparr>, after_reading (after_read fd w))"
    using check_hotkeys_first_event unfolding slots_def by blast
  have idle: "(\<forall>x\<in>set (slots st). idle_slot v x)
       \<longrightarrow> input_monitor_check_hotkeys b st v
             = (elapsed_ms (next_reading v) (next_reading w0) \<ge> 1750, st, after_reading v)"
    using check_hotkeys_idle_held [OF held, of v b] t by (simp add: held_ms_def)
  from ev first idle show ?thesis by blast
qed

theorem long_press_release_shutdown_witness:
  "handle_event True (event EV_KEY KEY_POWER 0) (held_since [3] (at_ms 0) (at_ms 1900))
       (env_of (clock_from 2000) (queues [(3, [Full (event EV_KEY KEY_POWER 0)])]))
     = (Return_true, (held_since [3] (at_ms 0) (at_ms 1900))\<lparr>power_button_held := False\<rparr>,
        after_reading
          (env_of (clock_from 2000) (queues [(3, [Full (event EV_KEY KEY_POWER 0)])])))
   \<and> input_monitor_check_hotkeys True (held_since [3] (at_ms 0) (at_ms 1900))
       (env_of (clock_from 2000) (queues [(3, [Full (event EV_KEY KEY_POWER 0)])]))
     = (True, (held_since [3] (at_ms 0) (at_ms 1900))\<lparr>power_button_held := False\<rparr>,
        after_reading (after_read 3
          (env_of (clock_from 2000) (queues [(3, [Full (event EV_KEY KEY_POWER 0)])]))))
   \<and> input_monitor_check_hotkeys True (held_since [3] (at_ms 0) (at_ms 1900))
       (env_of (clock_from 1800) (queues []))
     = (True, held_since [3] (at_ms 0) (at_ms 1900),
        after_reading (env_of (clock_from 1800) (queues [])))"
proof -
  let ?p = "event EV_KEY KEY_POWER 1" and ?r = "event EV_KEY KEY_POWER 0"
  let ?wp = "env_of (clock_from 0) (queues [])"
  let ?sp = "initial_state\<lparr>power_press_time := at_ms 0, power_button_held := True\<rparr>"
  let ?st = "held_since [3] (at_ms 0) (at_ms 1900)"
  let ?w = "env_of (clock_from 2000) (queues [(3, [Full ?r])])"
  let ?v = "env_of (clock_from 1800) (queues [])"
  have h1: "power_press ?p"
    by (simp add: power_press_def key_or_switch_def event_def)
  have h2: "power_release ?r"
    by (simp add: power_release_def key_or_switch_def event_def)
  have h3: "\<not> power_button_held initial_state"
    by (simp add: initial_state_def)
  have np: "next_reading ?wp = at_ms 0"
    by (simp add: next_reading_def env_of_def clock_from_def)
  have h4: "handle_event True ?p initial_state ?wp = (Continue, ?sp, after_reading ?wp)"
    by (simp add: power_press_idle [OF h1 h3] np)
  have h5: "power_button_held ?st = power_button_held ?sp"
    by (simp add: held_since_def)
  have h6: "power_press_time ?st = power_press_time ?sp"
    by (simp add: held_since_def)
  have "at_least_ms 1750 (next_reading ?w) (next_reading ?wp)"
    by (simp add: at_least_ms_def normalized_def elapsed_ns_def next_reading_def env_of_def
        clock_from_def at_ms_def)
  then have h7: "elapsed_ms (next_reading ?w) (next_reading ?wp) \<ge> 1750
      \<or> at_least_ms 1750 (next_reading ?w) (next_reading ?wp)"
    by simp
  have h8: "slots ?st = [] @ 3 # []
      \<and> (\<forall>x\<in>set []. idle_slot ?w x) \<and> (0::int) \<le> 3 \<and> pending ?w 3 = Full ?r # []"
    by (simp add: slots_def held_since_def monitoring_def initial_state_def env_of_def queues_def)
  have h9: "\<forall>x\<in>set (slots ?st). idle_slot ?v x"
    by (simp add: idle_slot_def env_of_def queues_def)
  have h10: "elapsed_ms (next_reading ?v) (next_reading ?wp) \<ge> 1750"
    by (simp add: elapsed_ms_def next_reading_def env_of_def clock_from_def at_ms_def
        signed_divide_int_def)
  from long_press_release_shutdown [OF h1 h2 h3 h4 h5 h6 h7,
      where b = True and pre = "[]" and fd = 3 and post = "[]" and q = "[]" and v = ?v]
    h8 h9 h10
  show ?thesis by simp
qed

text \<open>
  \<^bold>\<open>Claim C2\<close>, as stated, fails in the last millisecond below each threshold, where
  the source's millisecond measure can already show the threshold.  A button pressed at
  10.900000000 s and released at 12.649999999 s was held for 1749.999999 ms, yet the
  measure is 1750 and the release returns true without suspending.  A short press
  released at 5.399999999 s, the last suspend being at 4.900000000 s, comes 499.999999 ms
  after it, yet the measure is 500 and the suspend command is run.
\<close>

theorem boundary_hold_shuts_down:
  "elapsed_ns \<lparr>tv_sec = 12, tv_nsec = 649999999\<rparr> \<lparr>tv_sec = 10, tv_nsec = 900000000\<rparr>
     < 1750 * 1000000
   \<and> fst (handle_event True (event EV_KEY KEY_POWER 0)
         (held_since [3] \<lparr>tv_sec = 10, tv_nsec = 900000000\<rparr> zero_time)
         (env_of (clock_at \<lparr>tv_sec = 12, tv_nsec = 649999999\<rparr>) (queues []))) = Return_true
   \<and> commands (snd (snd (handle_event True (event EV_KEY KEY_POWER 0)
         (held_since [3] \<lparr>tv_sec = 10, tv_nsec = 900000000\<rparr> zero_time)
         (env_of (clock_at \<lparr>tv_sec = 12, tv_nsec = 649999999\<rparr>) (queues []))))) = []
   \<and> elapsed_ns \<lparr>tv_sec = 5, tv_nsec = 399999999\<rparr> \<lparr>tv_sec = 4, tv_nsec = 900000000\<rparr>
     < 500 * 1000000
   \<and> commands (snd (snd (handle_event True (event EV_KEY KEY_POWER 0)
         (held_since [3] \<lparr>tv_sec = 5, tv_nsec = 300000000\<rparr> \<lparr>tv_sec = 4, tv_nsec = 900000000\<rparr>)
         (env_of (clock_at \<lparr>tv_sec = 5, tv_nsec = 399999999\<rparr>) (queues []))))) = [Suspend]"
  by code_simp

text \<open>
  \<^bold>\<open>Claim C2, amended.\<close>  The decisions are taken on the source's millisecond measure
  \<open>elapsed_ms\<close>.  With the press and the release as in C1 and a measure below 1750 between
  the two readings (as it is whenever at most 1749 ms really lie between them), the
  release never makes the function return.  If the measure from \<open>last_wake_time\<close> to the
  release's reading is at least 500 (as it is whenever at least 500 ms really elapsed),
  it runs the suspend command once and nothing else, and sets \<open>last_wake_time\<close> to the
  current time, read from the clock once the command has returned.  If that measure is
  below 500 (as it is whenever at most 499 ms really elapsed), it runs no command and
  only clears \<open>power_button_held\<close>.
\<close>

theorem short_press_release:
  assumes "power_press p" and "power_release r"
    and "\<not> power_button_held st0"
    and "handle_event b0 p st0 w0 = (f, st1, w1)"
    and "power_button_held st = power_button_held st1"
    and "power_press_time st = power_press_time st1"
    and "elapsed_ms (next_reading w) (next_reading w0) < 1750
         \<or> at_most_ms 1749 (next_reading w) (next_reading w0)"
  shows "(last_wake_ms (next_reading w) st \<ge> WAKE_DEBOUNCE_MS
          \<or> at_least_ms 500 (next_reading w) (last_wake_time st) \<longrightarrow>
            handle_event b r st w =
              (Continue,
               st\<lparr>power_button_held := False, last_wake_time := next_reading (after_reading w)\<rparr>,
               after_reading (after_reading (system Suspend w))))
       \<and> (last_wake_ms (next_reading w) st < WAKE_DEBOUNCE_MS
          \<or> at_most_ms 499 (next_reading w) (last_wake_time st) \<longrightarrow>
            handle_event b r st w = (Continue, st\<lparr>power_button_held := False\<rparr>, after_reading w))"
proof -
  from assms(1,3,4)
  have "st1 = st0\<lparr>power_press_time := next_reading w0, power_button_held := True\<rparr>"
    by (simp add: power_press_idle)
  with assms(5,6) have held: "power_button_held st" and t: "power_press_time st = next_reading w0"
    by simp_all
  have "elapsed_ms (next_reading w) (next_reading w0) < 1750"
    using assms(7) at_most_ms_measure [of 1749 "next_reading w" "next_reading w0"] by auto
  then have short: "held_ms (next_reading w) st < 1750"
    using t by (simp add: held_ms_def)
  have late: "last_wake_ms (next_reading w) st \<ge> 500"
    if "last_wake_ms (next_reading w) st \<ge> WAKE_DEBOUNCE_MS
        \<or> at_least_ms 500 (next_reading w) (last_wake_time st)"
    using that at_least_ms_measure [of 500 "next_reading w" "last_wake_time st"]
    by (auto simp: last_wake_ms_def WAKE_DEBOUNCE_MS_def)
  have early: "last_wake_ms (next_reading w) st < 500"
    if "last_wake_ms (next_reading w) st < WAKE_DEBOUNCE_MS
        \<or> at_most_ms 499 (next_reading w) (last_wake_time st)"
    using that at_most_ms_measure [of 499 "next_reading w" "last_wake_time st"]
    by (auto simp: last_wake_ms_def WAKE_DEBOUNCE_MS_def)
  show ?thesis
    using release_suspend [OF assms(2) held short] release_debounced [OF assms(2) held short]
      late early
    by blast
qed

theorem short_press_release_witness:
  "handle_event True (event EV_KEY KEY_POWER 0) (held_since [3] (at_ms 5000) (at_ms 4000))
       (env_of (clock_from 5300) (queues []))
     = (Continue,
        (held_since [3] (at_ms 5000) (at_ms 4000))
          \<lparr>power_button_held := False, last_wake_time := at_ms 5301\<rparr>,
        after_reading (after_reading
          (system Suspend (env_of (clock_from 5300) (queues [])))))
   \<and> handle_event True (event EV_KEY KEY_POWER 0) (held_since [3] (at_ms 5000) (at_ms 4900))
       (env_of (clock_from 5300) (queues []))
     = (Continue, (held_since [3] (at_ms 5000) (at_ms 4900))\<lparr>power_button_held := False\<rparr>,
        after_reading (env_of (clock_from 5300) (queues [])))"
proof -
  let ?p = "event EV_KEY KEY_POWER 1" and ?r = "event EV_KEY KEY_POWER 0"
  let ?wp = "env_of (clock_from 5000) (queues [])"
  let ?sp = "initial_state\<lparr>power_press_time := at_ms 5000, power_button_held := True\<rparr>"
  let ?sa = "held_since [3] (at_ms 5000) (at_ms 4000)"
  let ?sb = "held_since [3] (at_ms 5000) (at_ms 4900)"
  let ?w = "env_of (clock_from 5300) (queues [])"
  have h1: "power_press ?p"
    by (simp add: power_press_def key_or_switch_def event_def)
  have h2: "power_release ?r"
    by (simp add: power_release_def key_or_switch_def event_def)
  have h3: "\<not> power_button_held initial_state"
    by (simp add: initial_state_def)
  have np: "next_reading ?wp = at_ms 5000"
    by (simp add: next_reading_def env_of_def clock_from_def)
  have h4: "handle_event True ?p initial_state ?wp = (Continue, ?sp, after_reading ?wp)"
    by (simp add: power_press_idle [OF h1 h3] np)
  have h5: "power_button_held ?sa = power_button_held ?sp"
    "power_button_held ?sb = power_button_held ?sp"
    by (simp_all add: held_since_def)
  have h6: "power_press_time ?sa = power_press_time ?sp"
    "power_press_time ?sb = power_press_time ?sp"
    by (simp_all add: held_since_def)
  have "at_most_ms 1749 (next_reading ?w) (next_reading ?wp)"
    by (simp add: at_most_ms_def normalized_def elapsed_ns_def next_reading_def env_of_def
        clock_from_def at_ms_def)
  then have h7: "elapsed_ms (next_reading ?w) (next_reading ?wp) < 1750
      \<or> at_most_ms 1749 (next_reading ?w) (next_reading ?wp)"
    by simp
  have "at_least_ms 500 (next_reading ?w) (last_wake_time ?sa)"
    by (simp add: at_least_ms_def normalized_def elapsed_ns_def next_reading_def env_of_def
        clock_from_def at_ms_def held_since_def)
  then have h8: "last_wake_ms (next_reading ?w) ?sa \<ge> WAKE_DEBOUNCE_MS
      \<or> at_least_ms 500 (next_reading ?w) (last_wake_time ?sa)"
    by simp
  have "at_most_ms 499 (next_reading ?w) (last_wake_time ?sb)"
    by (simp add: at_most_ms_def normalized_def elapsed_ns_def next_reading_def env_of_def
        clock_from_def at_ms_def held_since_def)
  then have h9: "last_wake_ms (next_reading ?w) ?sb < WAKE_DEBOUNCE_MS
      \<or> at_most_ms 499 (next_reading ?w) (last_wake_time ?sb)"
    by simp
  have n: "next_reading (after_reading ?w) = at_ms 5301"
    by (simp add: next_reading_def after_reading_def env_of_def clock_from_def)
  from short_press_release [OF h1 h2 h3 h4 h5(1) h6(1) h7, where b = True]
    short_press_release [OF h1 h2 h3 h4 h5(2) h6(2) h7, where b = True] h8 h9 n
  show ?thesis by simp
qed

subsection \<open>The debounced release\<close>

text \<open>
  \<^bold>\<open>Claim C10.\<close>  A release of the power button that ends a short press (held for less
  than 1750 ms) inside the debounce window (less than 500 ms since \<open>last_wake_time\<close>) is
  dropped: the loop goes on, the only variable of the monitor that changes is
  \<open>power_button_held\<close>, which becomes false, so \<open>last_wake_time\<close> keeps its value and
  the window does not move; the environment only loses one clock reading, and no command
  is run.
\<close>

theorem dropped_release_frame:
  assumes "power_release ev" and "power_button_held st"
    and "held_ms (next_reading w) st < 1750"
    and "last_wake_ms (next_reading w) st < WAKE_DEBOUNCE_MS"
  shows "handle_event backlight_on ev st w =
           (Continue, st\<lparr>power_button_held := False\<rparr>, after_reading w)"
  using assms by (simp add: release_debounced WAKE_DEBOUNCE_MS_def)

theorem dropped_release_frame_witness:
  "power_release (event EV_KEY KEY_POWER 0)
   \<and> power_button_held (held_since [3] (at_ms 10000) (at_ms 9900))
   \<and> held_ms (next_reading (env_of (\<lambda>n. at_ms 10300) (\<lambda>fd. []))) (held_since [3] (at_ms 10000) (at_ms 9900)) < 1750
   \<and> last_wake_ms (next_reading (env_of (\<lambda>n. at_ms 10300) (\<lambda>fd. []))) (held_since [3] (at_ms 10000) (at_ms 9900))
       < WAKE_DEBOUNCE_MS
   \<and> handle_event True (event EV_KEY KEY_POWER 0) (held_since [3] (at_ms 10000) (at_ms 9900))
       (env_of (\<lambda>n. at_ms 10300) (\<lambda>fd. []))
     = (Continue, (held_since [3] (at_ms 10000) (at_ms 9900))\<lparr>power_button_held := False\<rparr>,
        after_reading (env_of (\<lambda>n. at_ms 10300) (\<lambda>fd. [])))"
proof -
  let ?ev = "event EV_KEY KEY_POWER 0"
  let ?st = "held_since [3] (at_ms 10000) (at_ms 9900)"
  let ?w = "env_of (\<lambda>n. at_ms 10300) (\<lambda>fd. [])"
  have h1: "power_release ?ev"
    by (simp add: power_release_def key_or_switch_def event_def)
  have h2: "power_button_held ?st"
    by (simp add: held_since_def)
  have h3: "held_ms (next_reading ?w) ?st < 1750"
    by (simp add: held_ms_def elapsed_ms_def next_reading_def env_of_def held_since_def
        at_ms_def signed_divide_int_def)
  have h4: "last_wake_ms (next_reading ?w) ?st < WAKE_DEBOUNCE_MS"
    by (simp add: last_wake_ms_def elapsed_ms_def next_reading_def env_of_def held_since_def
        at_ms_def signed_divide_int_def WAKE_DEBOUNCE_MS_def)
  from dropped_release_frame [OF h1 h2 h3 h4, of True] h1 h2 h3 h4
  show ?thesis by simp
qed

subsection \<open>The long hold\<close>

text \<open>
  \<^bold>\<open>Claim C3\<close>, as stated, fails: nothing records that the long hold was signalled.
  With the button held since 0 ms, a call at 1800 ms with no event returns true and
  leaves the state as it was, the button still held; the next call, at 1850 ms, returns
  true again; and the call that reads the release, at 1900 ms, returns true once more.
\<close>

theorem shutdown_signalled_again:
  "fst (input_monitor_check_hotkeys True (held_since [3] (at_ms 0) (at_ms 0))
          (env_of (clock_from 1800) (queues [])))
   \<and> fst (snd (input_monitor_check_hotkeys True (held_since [3] (at_ms 0) (at_ms 0))
          (env_of (clock_from 1800) (queues [])))) = held_since [3] (at_ms 0) (at_ms 0)
   \<and> power_button_held (held_since [3] (at_ms 0) (at_ms 0))
   \<and> fst (input_monitor_check_hotkeys True (held_since [3] (at_ms 0) (at_ms 0))
          (env_of (clock_from 1850) (queues [])))
   \<and> fst (input_monitor_check_hotkeys True (held_since [3] (at_ms 0) (at_ms 0))
          (env_of (clock_from 1900) (queues [(3, [Full (event EV_KEY KEY_POWER 0)])])))"
  by code_simp

text \<open>
  \<^bold>\<open>Claim C3, amended.\<close>  One call signals at most once, its result being one boolean,
  but the signal is not latched from call to call.  While the power button is held, a
  call that finds no event returns true exactly when \<open>held_ms\<close>, the source's millisecond
  measure of the time from the press to the clock reading of its final check, is at least
  1750, and it leaves the state unchanged, so every later such call signals again.  That
  measure is at least 1750 whenever 1750 ms or more really elapsed, and below 1750
  whenever 1749 ms or less did.  The release of that press, handled when the measure is
  at least 1750, makes the function return true as well.
\<close>

theorem long_hold_signalled_each_call:
  assumes "power_button_held st"
  shows "((\<forall>x\<in>set (take (num_devices st) (input_fds st)). idle_slot w x) \<longrightarrow>
            input_monitor_check_hotkeys b st w
              = (held_ms (next_reading w) st \<ge> 1750, st, after_reading w))
       \<and> (at_least_ms 1750 (next_reading w) (power_press_time st) \<longrightarrow>
            held_ms (next_reading w) st \<ge> 1750)
       \<and> (at_most_ms 1749 (next_reading w) (power_press_time st) \<longrightarrow>
            \<not> held_ms (next_reading w) st \<ge> 1750)
       \<and> (power_release r \<and> held_ms (next_reading v) st \<ge> 1750 \<longrightarrow>
            handle_event b r st v = (Return_true, st\<lparr>power_button_held := False\<rparr>, after_reading v))"
proof -
  have idle: "(\<forall>x\<in>set (take (num_devices st) (input_fds st)). idle_slot w x) \<longrightarrow>
            input_monitor_check_hotkeys b st w
              = (held_ms (next_reading w) st \<ge> 1750, st, after_reading w)"
    using check_hotkeys_idle_held [OF assms, of w b] by (simp add: slots_def)
  have up: "at_least_ms 1750 (next_reading w) (power_press_time st) \<longrightarrow>
            held_ms (next_reading w) st \<ge> 1750"
    using at_least_ms_measure [of 1750 "next_reading w" "power_press_time st"]
    by (simp add: held_ms_def)
  have low: "at_most_ms 1749 (next_reading w) (power_press_time st) \<longrightarrow>
            \<not> held_ms (next_reading w) st \<ge> 1750"
    using at_most_ms_measure [of 1749 "next_reading w" "power_press_time st"]
    by (auto simp: held_ms_def)
  have rel: "power_release r \<and> held_ms (next_reading v) st \<ge> 1750 \<longrightarrow>
            handle_event b r st v = (Return_true, st\<lparr>power_button_held := False\<rparr>, after_reading v)"
    using assms by (simp add: release_long)
  from idle up low rel show ?thesis by blast
qed

theorem long_hold_signalled_each_call_witness:
  "input_monitor_check_hotkeys True (held_since [3] (at_ms 0) (at_ms 0))
       (env_of (clock_from 1800) (queues []))
     = (True, held_since [3] (at_ms 0) (at_ms 0), after_reading (env_of (clock_from 1800) (queues [])))
   \<and> input_monitor_check_hotkeys True (held_since [3] (at_ms 0) (at_ms 0))
       (env_of (clock_from 1000) (queues []))
     = (False, held_since [3] (at_ms 0) (at_ms 0), after_reading (env_of (clock_from 1000) (queues [])))
   \<and> handle_event True (event EV_KEY KEY_POWER 0) (held_since [3] (at_ms 0) (at_ms 0))
       (env_of (clock_from 1900) (queues []))
     = (Return_true, (held_since [3] (at_ms 0) (at_ms 0))\<lparr>power_button_held := False\<rparr>,
        after_reading (env_of (clock_from 1900) (queues [])))"
proof -
  let ?st = "held_since [3] (at_ms 0) (at_ms 0)"
  let ?w = "env_of (clock_from 1800) (queues [])"
  let ?u = "env_of (clock_from 1000) (queues [])"
  let ?v = "env_of (clock_from 1900) (queues [])"
  let ?r = "event EV_KEY KEY_POWER 0"
  have h1: "power_button_held ?st"
    by (simp add: held_since_def)
  have h2: "\<forall>x\<in>set (take (num_devices ?st) (input_fds ?st)). idle_slot ?w x"
    "\<forall>x\<in>set (take (num_devices ?st) (input_fds ?st)). idle_slot ?u x"
    by (simp_all add: idle_slot_def env_of_def queues_def)
  have h3: "power_release ?r"
    by (simp add: power_release_def key_or_switch_def event_def)
  have h4: "at_least_ms 1750 (next_reading ?w) (power_press_time ?st)"
    by (simp add: at_least_ms_def normalized_def elapsed_ns_def next_reading_def env_of_def
        clock_from_def held_since_def at_ms_def)
  have h5: "at_most_ms 1749 (next_reading ?u) (power_press_time ?st)"
    by (simp add: at_most_ms_def normalized_def elapsed_ns_def next_reading_def env_of_def
        clock_from_def held_since_def at_ms_def)
  have h6: "held_ms (next_reading ?v) ?st \<ge> 1750"
    by (simp add: held_ms_def elapsed_ms_def next_reading_def env_of_def clock_from_def
        held_since_def at_ms_def signed_divide_int_def)
  from long_hold_signalled_each_call [OF h1, where w = ?w and b = True and r = ?r and v = ?v]
    long_hold_signalled_each_call [OF h1, where w = ?u and b = True and r = ?r and v = ?v]
    h2 h3 h4 h5 h6
  show ?thesis by simp
qed

subsection \<open>The debounce window\<close>

text \<open>
  \<^bold>\<open>Claim C4\<close>, as stated, fails: the lid switch suspends without looking at the window.
  In one call whose clock readings start at 1000 ms, a short press of the power button
  suspends and the closing of the lid suspends again: two suspend commands, the second
  after the reading at 1003 ms, within 500 ms of the first.
\<close>

theorem lid_suspend_inside_window:
  "fst (input_monitor_check_hotkeys True (monitoring [3, 4])
         (env_of (clock_from 1000)
            (queues [(3, [Full (event EV_KEY KEY_POWER 1), Full (event EV_KEY KEY_POWER 0)]),
                     (4, [Full (event EV_SW SW_LID 1)])]))) = False
   \<and> commands (snd (snd (input_monitor_check_hotkeys True (monitoring [3, 4])
         (env_of (clock_from 1000)
            (queues [(3, [Full (event EV_KEY KEY_POWER 1), Full (event EV_KEY KEY_POWER 0)]),
                     (4, [Full (event EV_SW SW_LID 1)])]))))) = [Suspend, Suspend]
   \<and> last_wake_time (fst (snd (input_monitor_check_hotkeys True (monitoring [3, 4])
         (env_of (clock_from 1000)
            (queues [(3, [Full (event EV_KEY KEY_POWER 1), Full (event EV_KEY KEY_POWER 0)]),
                     (4, [Full (event EV_SW SW_LID 1)])]))))) = at_ms 1003
   \<and> elapsed_ms (at_ms 1003) (clock_from 1000 0) < WAKE_DEBOUNCE_MS"
  by code_simp

text \<open>
  \<^bold>\<open>Claim C4, amended.\<close>  A suspend triggered by the power button never fires while the
  source's millisecond measure of the time since the previous suspend is below 500,
  whatever triggered that one: if an event ran the suspend command, \<open>last_wake_time\<close>
  became the clock reading taken right after the command; if the power button later runs
  a command while \<open>last_wake_time\<close> still has that value, the command is one suspend and
  the measure from that reading to the reading of the release is at least 500, so that
  more than 499 ms really lie between them.  \<open>last_wake_time\<close> changes only when a
  suspend is run.  Closing the lid always suspends, also inside the window.
\<close>

theorem power_suspend_debounced:
  assumes "handle_event b1 e1 sa wa = (f1, sb, wb)" and "commands wb = commands wa @ [Suspend]"
    and "last_wake_time st = last_wake_time sb"
    and "handle_event b2 e2 st w = (f2, st', w')" and "ev_code e2 = KEY_POWER"
    and "commands w' \<noteq> commands w"
  shows "last_wake_time sb = last_reading wb
       \<and> elapsed_ms (next_reading w) (last_reading wb) \<ge> WAKE_DEBOUNCE_MS
       \<and> (normalized (next_reading w) \<and> normalized (last_reading wb) \<longrightarrow>
            499 * 1000000 < elapsed_ns (next_reading w) (last_reading wb))
       \<and> commands w' = commands w @ [Suspend]
       \<and> (handle_event b3 e3 s3 w3 = (f3, s4, w4) \<and> last_wake_time s4 \<noteq> last_wake_time s3
            \<longrightarrow> commands w4 = commands w3 @ [Suspend])
       \<and> (lid_close e5 \<longrightarrow>
            handle_event b5 e5 s5 w5 =
              (Continue, s5\<lparr>last_wake_time := next_reading w5\<rparr>, after_reading (system Suspend w5)))"
proof -
  have a: "last_wake_time sb = last_reading wb"
    using suspend_sets_last_wake [OF assms(1,2)] .
  have p: "last_wake_ms (next_reading w) st \<ge> WAKE_DEBOUNCE_MS \<and> commands w' = commands w @ [Suspend]"
    using power_command_debounced [OF assms(4,5,6)] .
  with a assms(3) have m: "elapsed_ms (next_reading w) (last_reading wb) \<ge> 500"
    by (simp add: last_wake_ms_def WAKE_DEBOUNCE_MS_def)
  have x: "normalized (next_reading w) \<and> normalized (last_reading wb) \<longrightarrow>
            499 * 1000000 < elapsed_ns (next_reading w) (last_reading wb)"
    using measure_exact_lower [of "next_reading w" "last_reading wb" 500] m by simp
  from a p m x show ?thesis
    using last_wake_changes_on_suspend lid_close_suspends
    by (auto simp: WAKE_DEBOUNCE_MS_def)
qed

theorem power_suspend_debounced_witness:
  "last_wake_time ((monitoring [3])\<lparr>last_wake_time := at_ms 1000\<rparr>)
     = last_reading (after_reading (system Suspend (env_of (clock_from 1000) (queues []))))
   \<and> elapsed_ms (next_reading (env_of (clock_from 1600) (queues [])))
         (last_reading (after_reading (system Suspend (env_of (clock_from 1000) (queues [])))))
       \<ge> WAKE_DEBOUNCE_MS
   \<and> 499 * 1000000
       < elapsed_ns (next_reading (env_of (clock_from 1600) (queues [])))
           (last_reading (after_reading (system Suspend (env_of (clock_from 1000) (queues [])))))
   \<and> commands (after_reading (after_reading (system Suspend (env_of (clock_from 1600) (queues [])))))
     = commands (env_of (clock_from 1600) (queues [])) @ [Suspend]
   \<and> commands (after_reading (system Suspend (env_of (clock_from 1000) (queues []))))
     = commands (env_of (clock_from 1000) (queues [])) @ [Suspend]
   \<and> handle_event True (event EV_SW SW_LID 1) (monitoring [3]) (env_of (clock_from 1000) (queues []))
     = (Continue, (monitoring [3])\<lparr>last_wake_time := next_reading (env_of (clock_from 1000) (queues []))\<rparr>,
        after_reading (system Suspend (env_of (clock_from 1000) (queues []))))"
proof -
  let ?lid = "event EV_SW SW_LID 1" and ?r = "event EV_KEY KEY_POWER 0"
  let ?sa = "monitoring [3]"
  let ?wa = "env_of (clock_from 1000) (queues [])"
  let ?sb = "?sa\<lparr>last_wake_time := at_ms 1000\<rparr>"
  let ?wb = "after_reading (system Suspend ?wa)"
  let ?st = "held_since [3] (at_ms 1400) (at_ms 1000)"
  let ?w = "env_of (clock_from 1600) (queues [])"
  let ?st' = "?st\<lparr>power_button_held := False, last_wake_time := next_reading (after_reading ?w)\<rparr>"
  let ?w' = "after_reading (after_reading (system Suspend ?w))"
  have lid: "lid_close ?lid"
    by (simp add: lid_close_def key_or_switch_def event_def)
  have rel: "power_release ?r"
    by (simp add: power_release_def key_or_switch_def event_def)
  have n: "next_reading ?wa = at_ms 1000"
    by (simp add: next_reading_def env_of_def clock_from_def)
  have h1: "handle_event True ?lid ?sa ?wa = (Continue, ?sb, ?wb)"
    by (simp add: lid_close_suspends [OF lid] n)
  have h2: "commands ?wb = commands ?wa @ [Suspend]"
    by (simp add: after_reading_def system_def)
  have h3: "last_wake_time ?st = last_wake_time ?sb"
    by (simp add: held_since_def)
  have held: "power_button_held ?st"
    by (simp add: held_since_def)
  have short: "held_ms (next_reading ?w) ?st < 1750"
    by (simp add: held_ms_def elapsed_ms_def next_reading_def env_of_def clock_from_def
        held_since_def at_ms_def signed_divide_int_def)
  have late: "last_wake_ms (next_reading ?w) ?st \<ge> 500"
    by (simp add: last_wake_ms_def elapsed_ms_def next_reading_def env_of_def clock_from_def
        held_since_def at_ms_def signed_divide_int_def)
  have h4: "handle_event True ?r ?st ?w = (Continue, ?st', ?w')"
    by (rule release_suspend [OF rel held short late])
  have h5: "ev_code ?r = KEY_POWER"
    by (simp add: event_def)
  have h6: "commands ?w' \<noteq> commands ?w"
    by (simp add: after_reading_def system_def)
  have h7: "last_wake_time ?sb \<noteq> last_wake_time ?sa"
    by (simp add: monitoring_def initial_state_def zero_time_def at_ms_def)
  have lr: "last_reading ?wb = at_ms 1000"
    by (simp add: last_reading_def after_reading_def system_def env_of_def clock_from_def)
  have "normalized (at_ms 1000)" and "normalized (next_reading ?w)"
    by (simp_all add: normalized_def next_reading_def env_of_def clock_from_def at_ms_def)
  then have nz: "normalized (next_reading ?w) \<and> normalized (last_reading ?wb)"
    by (simp only: lr simp_thms)
  from power_suspend_debounced [OF h1 h2 h3 h4 h5 h6,
      where ?b3.0 = True and ?e3.0 = ?lid and ?s3.0 = ?sa and ?w3.0 = ?wa and ?f3.0 = Continue
        and ?s4.0 = ?sb and ?w4.0 = ?wb and ?e5.0 = ?lid and ?b5.0 = True and ?s5.0 = ?sa
        and ?w5.0 = ?wa]
    h1 h7 lid nz
  show ?thesis by (simp add: lr n)
qed

subsection \<open>Reading the sources\<close>

lemma only_events_Cons:
  "only_events (r # q) \<longleftrightarrow> (\<exists>ev. r = Full ev) \<and> only_events q"
  by (cases r) (simp_all add: only_events_def)

lemma poll_fds_append:
  "poll_fds b (xs @ ys) st w =
     (case poll_fds b xs st w of
        (True, s, v) \<Rightarrow> (True, s, v)
      | (False, s, v) \<Rightarrow> poll_fds b ys s v)"
  by (induction xs arbitrary: st w) (auto split: prod.splits bool.splits)

lemma drain_drains:
  "only_events (pending w fd) \<Longrightarrow> drain b fd st w = (False, st', w') \<Longrightarrow>
   pending w' = (pending w)(fd := [])"
proof (induction b fd st w rule: drain.induct)
  case (1 b fd st w)
  show ?case
  proof (cases "pending w fd")
    case Nil
    with "1.prems"(2) show ?thesis by (auto simp: drain_idle fun_eq_iff)
  next
    case (Cons r q)
    with "1.prems"(1) obtain ev where r: "r = Full ev" and q: "only_events q"
      by (auto simp: only_events_Cons)
    let ?w1 = "w\<lparr>pending := (pending w)(fd := q)\<rparr>"
    have rd: "read_fd fd w = (Full ev, ?w1)"
      using Cons r by (simp add: read_fd_def)
    obtain f s2 w2 where h: "handle_event b ev st ?w1 = (f, s2, w2)"
      by (cases "handle_event b ev st ?w1") auto
    have p2: "pending w2 = (pending w)(fd := q)"
      using handle_event_pending [OF h] by simp
    show ?thesis
    proof (cases f)
      case Continue
      have d: "drain b fd s2 w2 = (False, st', w')"
        using "1.prems"(2) rd h Continue by (subst (asm) drain.simps) simp
      have "only_events (pending w2 fd)" using p2 q by simp
      from "1.IH" [OF rd [symmetric] refl refl h [symmetric] refl refl Continue this d]
      show ?thesis using p2 by (auto simp: fun_eq_iff)
    next
      case Return_true
      with "1.prems"(2) rd h show ?thesis by (subst (asm) drain.simps) simp
    qed
  qed
qed

lemma poll_fds_drains:
  "\<forall>fd\<in>set fds. only_events (pending w fd) \<Longrightarrow> poll_fds b fds st w = (False, st', w') \<Longrightarrow>
   pending w' x = (if x \<in> set fds \<and> 0 \<le> x then [] else pending w x)"
proof (induction fds arbitrary: st w)
  case Nil
  then show ?case by simp
next
  case (Cons fd fds)
  show ?case
  proof (cases "fd < 0")
    case True
    with Cons.prems have "poll_fds b fds st w = (False, st', w')" by simp
    from Cons.IH [OF _ this] Cons.prems(1) True show ?thesis by auto
  next
    case False
    obtain r1 s1 w1 where d: "drain b fd st w = (r1, s1, w1)"
      by (cases "drain b fd st w") auto
    with Cons.prems(2) False have r1: "\<not> r1" and p: "poll_fds b fds s1 w1 = (False, st', w')"
      by (auto split: if_splits)
    have p1: "pending w1 = (pending w)(fd := [])"
      using drain_drains [of w fd b st s1 w1] Cons.prems(1) d r1 by simp
    have "\<forall>y\<in>set fds. only_events (pending w1 y)"
      using Cons.prems(1) p1 by (simp add: only_events_def)
    from Cons.IH [OF this p] p1 False show ?thesis by auto
  qed
qed

lemma check_hotkeys_poll:
  assumes "input_monitor_check_hotkeys b st w = (res, st', w')"
  shows "pending w' = pending (snd (snd (poll_fds b (slots st) st w)))
       \<and> (fst (poll_fds b (slots st) st w) \<longrightarrow> res)"
  using assms
  by (auto simp: input_monitor_check_hotkeys_def slots_def clock_gettime_def Let_def
        split: prod.splits if_splits)

lemma drain_no_release:
  "no_release (pending w fd) \<Longrightarrow> \<not> fst (drain b fd st w)"
proof (induction b fd st w rule: drain.induct)
  case (1 b fd st w)
  show ?case
  proof (cases "pending w fd")
    case Nil
    then show ?thesis by (simp add: drain_idle)
  next
    case (Cons r q)
    show ?thesis
    proof (cases r)
      case (Full ev)
      let ?w1 = "w\<lparr>pending := (pending w)(fd := q)\<rparr>"
      have rd: "read_fd fd w = (Full ev, ?w1)"
        using Cons Full by (simp add: read_fd_def)
      from "1.prems" Cons Full have nr: "\<not> power_release ev" and q: "no_release q"
        by (simp_all add: no_release_def)
      obtain f s2 w2 where h: "handle_event b ev st ?w1 = (f, s2, w2)"
        by (cases "handle_event b ev st ?w1") auto
      have f: "f = Continue"
        using h nr Return_true_is_release by (cases f) auto
      have p2: "pending w2 = (pending w)(fd := q)"
        using handle_event_pending [OF h] by simp
      have "no_release (pending w2 fd)" using p2 q by simp
      from "1.IH" [OF rd [symmetric] refl refl h [symmetric] refl refl f this]
      have "\<not> fst (drain b fd s2 w2)" .
      moreover have "drain b fd st w = drain b fd s2 w2"
        using rd h f by (subst drain.simps) simp
      ultimately show ?thesis by simp
    next
      case Would_block
      with Cons show ?thesis by (simp add: drain_stop)
    next
      case Read_error
      with Cons show ?thesis by (simp add: drain_stop)
    next
      case Short_read
      with Cons show ?thesis by (simp add: drain_stop)
    qed
  qed
qed

lemma poll_fds_no_release:
  "\<forall>fd\<in>set fds. only_events (pending w fd) \<and> no_release (pending w fd) \<Longrightarrow>
   \<not> fst (poll_fds b fds st w)"
proof (induction fds arbitrary: st w)
  case Nil
  then show ?case by simp
next
  case (Cons fd fds)
  show ?case
  proof (cases "fd < 0")
    case True
    with Cons show ?thesis by simp
  next
    case False
    obtain r1 s1 w1 where d: "drain b fd st w = (r1, s1, w1)"
      by (cases "drain b fd st w") auto
    have r1: "\<not> r1"
      using drain_no_release [of w fd b st] Cons.prems d by simp
    have p1: "pending w1 = (pending w)(fd := [])"
      using drain_drains [of w fd b st s1 w1] Cons.prems d r1 by simp
    have "\<forall>y\<in>set fds. only_events (pending w1 y) \<and> no_release (pending w1 y)"
      using Cons.prems p1 by (simp add: only_events_def no_release_def)
    from Cons.IH [OF this, of s1] d r1 False show ?thesis by simp
  qed
qed

lemma drain_read_error:
  "pending w fd = Read_error # q \<Longrightarrow> drain b fd st w = (False, st, after_read fd w)"
  by (simp add: drain_stop)

lemma check_hotkeys_table:
  assumes "input_monitor_check_hotkeys b st w = (res, st', w')"
  shows "input_fds st' = input_fds st \<and> num_devices st' = num_devices st"
proof (rule check_hotkeys_invariant
    [where P = "\<lambda>s. input_fds s = input_fds st \<and> num_devices s = num_devices st", OF _ _ assms])
  fix b ev s v f s' v'
  assume "input_fds s = input_fds st \<and> num_devices s = num_devices st"
    and "handle_event b ev s v = (f, s', v')"
  then show "input_fds s' = input_fds st \<and> num_devices s' = num_devices st"
    by (auto simp: handle_event_def power_event_def volume_up_event_def volume_down_event_def
        lid_event_def clock_gettime_def Let_def split: if_splits)
qed simp

text \<open>
  \<^bold>\<open>Claim C5\<close>, as stated, fails: no read error is remembered.  A call in which the read
  on descriptor 3 fails leaves the table as it was, \<open>[3, 4, -1]\<close>; and a later call reads
  descriptor 3 again: the lid event queued there is taken and the suspend command is run.
\<close>

theorem failed_source_read_again:
  "fst (snd (input_monitor_check_hotkeys True (monitoring [3, 4])
          (env_of (clock_from 0) (queues [(3, [Read_error])])))) = monitoring [3, 4]
   \<and> input_fds (monitoring [3, 4]) = [3, 4, -1]
   \<and> commands (snd (snd (input_monitor_check_hotkeys True (monitoring [3, 4])
          (env_of (clock_from 100) (queues [(3, [Full (event EV_SW SW_LID 1)])]))))) = [Suspend]
   \<and> pending (snd (snd (input_monitor_check_hotkeys True (monitoring [3, 4])
          (env_of (clock_from 100) (queues [(3, [Full (event EV_SW SW_LID 1)])]))))) 3 = []"
  by code_simp

text \<open>
  \<^bold>\<open>Claim C5, amended.\<close>  A read that fails with an error other than would-block ends
  the reading of that source for the current call only.  The loop on that source stops
  with the state unchanged, the call goes on with the remaining slots exactly as it
  would have, and the queues of the other descriptors are untouched.  The source is not
  marked dead: no call changes the table or the count, so every later call visits the
  same slots and reads that source again.
\<close>

theorem read_error_not_remembered:
  assumes "0 \<le> fd" and "pending w fd = Read_error # q"
    and "poll_fds b pre st0 w0 = (False, st, w)"
  shows "drain b fd st w = (False, st, after_read fd w)
       \<and> poll_fds b (pre @ fd # post) st0 w0 = poll_fds b post st (after_read fd w)
       \<and> (\<forall>x. x \<noteq> fd \<longrightarrow> pending (after_read fd w) x = pending w x)
       \<and> (input_monitor_check_hotkeys b' s v = (res, s', v') \<longrightarrow>
            input_fds s' = input_fds s \<and> num_devices s' = num_devices s \<and> slots s' = slots s)"
proof -
  have d: "drain b fd st w = (False, st, after_read fd w)"
    using assms(2) by (rule drain_read_error)
  have "poll_fds b (pre @ fd # post) st0 w0 = poll_fds b post st (after_read fd w)"
    using assms(1,3) d by (simp add: poll_fds_append)
  with d show ?thesis
    using check_hotkeys_table by (auto simp: after_read_def slots_def)
qed

theorem read_error_not_remembered_witness:
  "drain True 3 (monitoring [3, 4])
       (env_of (clock_from 0) (queues [(3, [Read_error]), (4, [Full (event EV_SW SW_LID 1)])]))
     = (False, monitoring [3, 4],
        after_read 3
          (env_of (clock_from 0) (queues [(3, [Read_error]), (4, [Full (event EV_SW SW_LID 1)])])))
   \<and> poll_fds True ([] @ 3 # [4]) (monitoring [3, 4])
       (env_of (clock_from 0) (queues [(3, [Read_error]), (4, [Full (event EV_SW SW_LID 1)])]))
     = poll_fds True [4] (monitoring [3, 4])
         (after_read 3
            (env_of (clock_from 0) (queues [(3, [Read_error]), (4, [Full (event EV_SW SW_LID 1)])])))
   \<and> slots (fst (snd (input_monitor_check_hotkeys True (monitoring [3, 4])
         (env_of (clock_from 0) (queues [(3, [Read_error]), (4, [Full (event EV_SW SW_LID 1)])])))))
     = slots (monitoring [3, 4])"
proof -
  let ?st = "monitoring [3, 4]"
  let ?w = "env_of (clock_from 0) (queues [(3, [Read_error]), (4, [Full (event EV_SW SW_LID 1)])])"
  let ?t = "input_monitor_check_hotkeys True ?st ?w"
  have h1: "(0::int) \<le> 3" by simp
  have h2: "pending ?w 3 = Read_error # []"
    by (simp add: env_of_def queues_def)
  have h3: "poll_fds True [] ?st ?w = (False, ?st, ?w)" by simp
  have h4: "?t = (fst ?t, fst (snd ?t), snd (snd ?t))" by simp
  from read_error_not_remembered [OF h1 h2 h3, of "[4]" True ?st ?w "fst ?t" "fst (snd ?t)" "snd (snd ?t)"]
    h4
  show ?thesis by simp
qed

text \<open>
  \<^bold>\<open>Claim C6\<close>, as stated, fails: the release of a long press returns from inside the
  read loop.  With the button held since 0 ms and a release followed by a lid event
  queued on descriptor 3, the call at 2000 ms returns true while the lid event is still
  queued, and no command has been run.
\<close>

theorem long_release_leaves_events_queued:
  "fst (input_monitor_check_hotkeys True (held_since [3] (at_ms 0) (at_ms 0))
          (env_of (clock_from 2000)
             (queues [(3, [Full (event EV_KEY KEY_POWER 0), Full (event EV_SW SW_LID 1)])])))
   \<and> pending (snd (snd (input_monitor_check_hotkeys True (held_since [3] (at_ms 0) (at_ms 0))
          (env_of (clock_from 2000)
             (queues [(3, [Full (event EV_KEY KEY_POWER 0), Full (event EV_SW SW_LID 1)])]))))) 3
     = [Full (event EV_SW SW_LID 1)]
   \<and> commands (snd (snd (input_monitor_check_hotkeys True (held_since [3] (at_ms 0) (at_ms 0))
          (env_of (clock_from 2000)
             (queues [(3, [Full (event EV_KEY KEY_POWER 0), Full (event EV_SW SW_LID 1)])]))))) = []"
  by code_simp

text \<open>
  \<^bold>\<open>Claim C6, amended.\<close>  When the queues of the visited slots hold events only, every
  call whose read loops run to their end has read and handled all of them: the queue of
  every live slot is empty afterwards, whether the call then returns false or returns
  true from its final check of the long hold.  Every call that returns false is such a
  call, and so is every call with no release of the power button in its queues.  The one
  exception is a call that returns from inside a read loop, on the release of the power
  button read when \<open>held_ms\<close> is at least 1750: it returns true at once and the events
  queued behind the release, on that descriptor and on the others, stay queued for the
  next call.
\<close>

theorem tick_drains_live_sources:
  assumes "\<forall>fd\<in>set (slots st). only_events (pending w fd)"
    and "input_monitor_check_hotkeys b st w = (res, st', w')"
  shows "(\<not> fst (poll_fds b (slots st) st w) \<longrightarrow>
            (\<forall>fd\<in>set (slots st). 0 \<le> fd \<longrightarrow> pending w' fd = []))
       \<and> (\<not> res \<longrightarrow> \<not> fst (poll_fds b (slots st) st w))
       \<and> ((\<forall>fd\<in>set (slots st). no_release (pending w fd)) \<longrightarrow>
            \<not> fst (poll_fds b (slots st) st w))
       \<and> (slots st = pre @ fd # post \<and> (\<forall>x\<in>set pre. idle_slot w x) \<and> 0 \<le> fd
            \<and> pending w fd = Full r # q \<and> power_release r \<and> power_button_held st
            \<and> held_ms (next_reading w) st \<ge> 1750
          \<longrightarrow> res \<and> pending w' fd = q \<and> (\<forall>x. x \<noteq> fd \<longrightarrow> pending w' x = pending w x))"
proof -
  note cp = check_hotkeys_poll [OF assms(2)]
  have a: "\<forall>fd\<in>set (slots st). 0 \<le> fd \<longrightarrow> pending w' fd = []"
    if "\<not> fst (poll_fds b (slots st) st w)"
  proof -
    obtain r1 s1 w1 where p0: "poll_fds b (slots st) st w = (r1, s1, w1)"
      by (cases "poll_fds b (slots st) st w") auto
    with that have p: "poll_fds b (slots st) st w = (False, s1, w1)" by simp
    with cp have e: "pending w' = pending w1" by simp
    show ?thesis using poll_fds_drains [OF assms(1) p] e by simp
  qed
  have b: "\<not> res \<longrightarrow> \<not> fst (poll_fds b (slots st) st w)"
    using cp by blast
  have n: "(\<forall>fd\<in>set (slots st). no_release (pending w fd)) \<longrightarrow>
            \<not> fst (poll_fds b (slots st) st w)"
    using poll_fds_no_release [of "slots st" w b st] assms(1) by blast
  have c: "res \<and> pending w' fd = q \<and> (\<forall>x. x \<noteq> fd \<longrightarrow> pending w' x = pending w x)"
    if h: "slots st = pre @ fd # post" "\<forall>x\<in>set pre. idle_slot w x" "0 \<le> fd"
      "pending w fd = Full r # q" "power_release r" "power_button_held st"
      "held_ms (next_reading w) st \<ge> 1750"
  proof -
    have "next_reading (after_read fd w) = next_reading w"
      by (simp add: next_reading_def after_read_def)
    with h have "handle_event b r st (after_read fd w)
        = (Return_true, st\<lparr>power_button_held := False\<rparr>, after_reading (after_read fd w))"
      by (simp add: release_long)
    from check_hotkeys_first_event [OF h(1) [unfolded slots_def] h(2,3,4) this] assms(2) h(4)
    show ?thesis by (auto simp: after_reading_def after_read_def)
  qed
  from a b n c show ?thesis by blast
qed

theorem tick_drains_live_sources_witness:
  "fst (input_monitor_check_hotkeys True (held_since [3, 4] (at_ms 0) (at_ms 0))
         (env_of (clock_from 2000)
            (queues [(3, [Full (event EV_KEY BTN_MODE 1)]),
                     (4, [Full (event EV_KEY KEY_VOLUMEUP 1), Full (event EV_SW SW_LID 0)])])))
   \<and> pending (snd (snd (input_monitor_check_hotkeys True (held_since [3, 4] (at_ms 0) (at_ms 0))
         (env_of (clock_from 2000)
            (queues [(3, [Full (event EV_KEY BTN_MODE 1)]),
                     (4, [Full (event EV_KEY KEY_VOLUMEUP 1), Full (event EV_SW SW_LID 0)])]))))) 3
     = []
   \<and> pending (snd (snd (input_monitor_check_hotkeys True (held_since [3, 4] (at_ms 0) (at_ms 0))
         (env_of (clock_from 2000)
            (queues [(3, [Full (event EV_KEY BTN_MODE 1)]),
                     (4, [Full (event EV_KEY KEY_VOLUMEUP 1), Full (event EV_SW SW_LID 0)])]))))) 4
     = []
   \<and> pending (snd (snd (input_monitor_check_hotkeys True (held_since [3] (at_ms 0) (at_ms 0))
         (env_of (clock_from 2000)
            (queues [(3, [Full (event EV_KEY KEY_POWER 0), Full (event EV_SW SW_LID 1)])]))))) 3
     = [Full (event EV_SW SW_LID 1)]"
proof -
  let ?sa = "held_since [3, 4] (at_ms 0) (at_ms 0)"
  let ?wa = "env_of (clock_from 2000)
      (queues [(3, [Full (event EV_KEY BTN_MODE 1)]),
               (4, [Full (event EV_KEY KEY_VOLUMEUP 1), Full (event EV_SW SW_LID 0)])])"
  let ?ta = "input_monitor_check_hotkeys True ?sa ?wa"
  let ?sb = "held_since [3] (at_ms 0) (at_ms 0)"
  let ?r = "event EV_KEY KEY_POWER 0"
  let ?wb = "env_of (clock_from 2000) (queues [(3, [Full ?r, Full (event EV_SW SW_LID 1)])])"
  let ?tb = "input_monitor_check_hotkeys True ?sb ?wb"
  have sl: "slots ?sa = [3, 4]"
    by (simp add: slots_def held_since_def monitoring_def initial_state_def)
  have a1: "\<forall>fd\<in>set (slots ?sa). only_events (pending ?wa fd)"
    by (simp add: sl env_of_def queues_def only_events_def)
  have a2: "?ta = (fst ?ta, fst (snd ?ta), snd (snd ?ta))" by simp
  have a3: "\<forall>fd\<in>set (slots ?sa). no_release (pending ?wa fd)"
    by (simp add: sl env_of_def queues_def no_release_def power_release_def
        key_or_switch_def event_def)
  have a4: "fst ?ta" by code_simp
  have b1: "\<forall>fd\<in>set (slots ?sb). only_events (pending ?wb fd)"
    by (simp add: slots_def held_since_def monitoring_def initial_state_def env_of_def
        queues_def only_events_def)
  have b2: "?tb = (fst ?tb, fst (snd ?tb), snd (snd ?tb))" by simp
  have b3: "slots ?sb = [] @ 3 # [] \<and> (\<forall>x\<in>set []. idle_slot ?wb x) \<and> (0::int) \<le> 3
      \<and> pending ?wb 3 = Full ?r # [Full (event EV_SW SW_LID 1)]"
    by (simp add: slots_def held_since_def monitoring_def initial_state_def env_of_def queues_def)
  have b4: "power_release ?r"
    by (simp add: power_release_def key_or_switch_def event_def)
  have b5: "power_button_held ?sb"
    by (simp add: held_since_def)
  have b6: "held_ms (next_reading ?wb) ?sb \<ge> 1750"
    by (simp add: held_ms_def elapsed_ms_def next_reading_def env_of_def clock_from_def
        held_since_def at_ms_def signed_divide_int_def)
  from tick_drains_live_sources [OF a1 a2, where pre = "[]" and fd = 3 and post = "[]"
      and r = ?r and q = "[]"] a3
  have A: "\<forall>fd\<in>set (slots ?sa). 0 \<le> fd \<longrightarrow> pending (snd (snd ?ta)) fd = []"
    by blast
  from tick_drains_live_sources [OF b1 b2, where pre = "[]" and fd = 3 and post = "[]"
      and r = ?r and q = "[Full (event EV_SW SW_LID 1)]"]
    b3 b4 b5 b6
  have B: "pending (snd (snd ?tb)) 3 = [Full (event EV_SW SW_LID 1)]"
    by blast
  from A B sl a4 show ?thesis by simp
qed

subsection \<open>Finding the devices\<close>

lemma warnings_append: "warnings (xs @ ys) = warnings xs @ warnings ys"
  by (induction xs rule: warnings.induct) simp_all

lemma lowest_free_cases:
  "(lowest_free fds = int (length fds) \<and> (\<forall>k\<le>length fds. int k \<in> set fds))
   \<or> (lowest_free fds \<notin> set fds \<and> (\<exists>k. lowest_free fds = int k))"
proof (cases "filter (\<lambda>n. n \<notin> set fds) (map int [0..<Suc (length fds)])")
  case Nil
  then have "\<forall>n\<in>set (map int [0..<Suc (length fds)]). n \<in> set fds"
    by (simp add: filter_empty_conv del: upt_Suc)
  then have "\<forall>k\<le>length fds. int k \<in> set fds"
    by (simp del: upt_Suc add: less_Suc_eq_le)
  with Nil show ?thesis by (simp add: lowest_free_def del: upt_Suc)
next
  case (Cons n ns)
  from filter_eq_ConsD [OF Cons] obtain us vs
    where m: "map int [0..<Suc (length fds)] = us @ n # vs" and n: "n \<notin> set fds"
    by blast
  from m have "n \<in> set (map int [0..<Suc (length fds)])"
    by (simp del: upt_Suc)
  then obtain k where "n = int k" by (auto simp del: upt_Suc)
  with n Cons show ?thesis by (simp add: lowest_free_def del: upt_Suc)
qed

lemma lowest_free_nonneg: "0 \<le> lowest_free fds"
  using lowest_free_cases [of fds] by auto

lemma lowest_free_fresh: "lowest_free fds \<notin> set fds"
proof -
  have False if all: "\<forall>k\<le>length fds. int k \<in> set fds"
  proof -
    from all have sub: "int ` {0..length fds} \<subseteq> set fds"
      by auto
    have "card (int ` {0..length fds}) = Suc (length fds)"
      by (simp add: card_image)
    moreover have "card (int ` {0..length fds}) \<le> card (set fds)"
      using sub by (simp add: card_mono)
    moreover have "card (set fds) \<le> length fds"
      by (rule card_length)
    ultimately show False by simp
  qed
  with lowest_free_cases [of fds] show ?thesis by blast
qed

lemma open_close_fd:
  "open_fd w = (fd, w1) \<Longrightarrow> close_fd fd w1 = w"
  using lowest_free_fresh [of "open_fds w"]
  by (auto simp: open_fd_def close_fd_def Let_def)

lemma open_fd_nonneg: "open_fd w = (fd, w1) \<Longrightarrow> 0 \<le> fd"
  using lowest_free_nonneg [of "open_fds w"] by (auto simp: open_fd_def Let_def)

lemma scan_dir_found:
  "scan_dir name dir es w = (fd, w') \<Longrightarrow>
     (0 \<le> fd \<longleftrightarrow> list_ex (matches name) es) \<and> dev_input w' = dev_input w
     \<and> warnings (printed w') = warnings (printed w)
     \<and> (\<not> list_ex (matches name) es \<longrightarrow> w' = close_fd dir w)"
proof (induction es arbitrary: w)
  case Nil
  then show ?case by (auto simp: close_fd_def)
next
  case (Cons e es)
  obtain d_name nd where e: "e = (d_name, nd)" by (cases e)
  show ?case
  proof (cases "take 5 d_name \<noteq> ''event'' \<or> \<not> can_open nd")
    case True
    with Cons.prems e have "scan_dir name dir es w = (fd, w')"
      by (auto split: if_splits)
    from Cons.IH [OF this] True e show ?thesis by (auto simp: matches_def)
  next
    case False
    obtain c w1 where o: "open_fd w = (c, w1)" by (cases "open_fd w")
    have c0: "0 \<le> c" using o by (rule open_fd_nonneg)
    have w1: "dev_input w1 = dev_input w" "printed w1 = printed w"
      using o by (auto simp: open_fd_def Let_def)
    show ?thesis
    proof (cases "strstr (node_name nd) name")
      case True
      with Cons.prems e False o c0 w1 show ?thesis
        by (auto simp: matches_def close_fd_def print_def warnings_append)
    next
      case nomatch: False
      with Cons.prems e False o have "scan_dir name dir es (close_fd c w1) = (fd, w')"
        by auto
      moreover have "close_fd c w1 = w" using o by (rule open_close_fd)
      ultimately have "scan_dir name dir es w = (fd, w')" by simp
      from Cons.IH [OF this] nomatch e show ?thesis by (auto simp: matches_def)
    qed
  qed
qed

lemma find_device_found:
  assumes "find_device_by_name name w = (fd, w')"
  shows "(0 \<le> fd \<longleftrightarrow> resolves w name) \<and> dev_input w' = dev_input w
     \<and> warnings (printed w') = warnings (printed w)
     \<and> (\<not> resolves w name \<longrightarrow> w' = w)"
proof (cases "dev_input w")
  case None
  with assms show ?thesis by (auto simp: find_device_by_name_def resolves_def)
next
  case (Some es)
  obtain dir w1 where o: "open_fd w = (dir, w1)" by (cases "open_fd w")
  have w1: "dev_input w1 = dev_input w" "printed w1 = printed w"
    using o by (auto simp: open_fd_def Let_def)
  from assms Some o have s: "scan_dir name dir es w1 = (fd, w')"
    by (simp add: find_device_by_name_def)
  from scan_dir_found [OF s] w1 Some open_close_fd [OF o]
  show ?thesis by (auto simp: resolves_def)
qed

lemma resolves_cong: "dev_input w' = dev_input w \<Longrightarrow> resolves w' = resolves w"
  by (auto simp: resolves_def fun_eq_iff)

lemma init_loop_result:
  "init_loop names st w = (st', w') \<Longrightarrow> num_devices st + length names \<le> MAX_INPUT_DEVICES \<Longrightarrow>
     num_devices st' = num_devices st + length (filter (resolves w) names)
     \<and> warnings (printed w') = warnings (printed w) @ filter (\<lambda>n. \<not> resolves w n) names
     \<and> dev_input w' = dev_input w
     \<and> ((\<forall>n\<in>set names. \<not> resolves w n) \<longrightarrow> st' = st \<and> open_fds w' = open_fds w)"
proof (induction names arbitrary: st w)
  case Nil
  then show ?case by simp
next
  case (Cons name names)
  obtain fd w1 where f: "find_device_by_name name w = (fd, w1)"
    by (cases "find_device_by_name name w")
  from find_device_found [OF f]
  have fd: "0 \<le> fd \<longleftrightarrow> resolves w name" and d1: "dev_input w1 = dev_input w"
    and p1: "warnings (printed w1) = warnings (printed w)"
    and same: "\<not> resolves w name \<Longrightarrow> w1 = w"
    by simp_all
  have lt: "num_devices st < MAX_INPUT_DEVICES" using Cons.prems(2) by simp
  show ?case
  proof (cases "resolves w name")
    case True
    define s1 where "s1 = st\<lparr>input_fds := (input_fds st)[num_devices st := fd],
                  num_devices := Suc (num_devices st)\<rparr>"
    have n1: "num_devices s1 = Suc (num_devices st)" by (simp add: s1_def)
    from Cons.prems(1) f fd True lt have l: "init_loop names s1 w1 = (st', w')"
      by (simp add: s1_def)
    have b: "num_devices s1 + length names \<le> MAX_INPUT_DEVICES"
      using Cons.prems(2) n1 by simp
    note IH = Cons.IH [OF l b]
    have rc: "resolves w1 = resolves w" using d1 by (rule resolves_cong)
    from IH have "num_devices st' = num_devices st + length (filter (resolves w) (name # names))"
      using True n1 rc by simp
    moreover from IH have "warnings (printed w')
        = warnings (printed w) @ filter (\<lambda>n. \<not> resolves w n) (name # names)"
      using True p1 rc by simp
    moreover from IH have "dev_input w' = dev_input w" using d1 by simp
    ultimately show ?thesis using True by simp
  next
    case False
    with fd same have nfd: "\<not> 0 \<le> fd" and w1: "w1 = w" by simp_all
    define w2 where "w2 = print (Warning_could_not_find name) w"
    have d2: "dev_input w2 = dev_input w" and o2: "open_fds w2 = open_fds w"
      and p2: "warnings (printed w2) = warnings (printed w) @ [name]"
      by (simp_all add: w2_def print_def warnings_append)
    from Cons.prems(1) f nfd w1 have l: "init_loop names st w2 = (st', w')"
      by (simp add: w2_def)
    have b: "num_devices st + length names \<le> MAX_INPUT_DEVICES"
      using Cons.prems(2) by simp
    note IH = Cons.IH [OF l b]
    have rc: "resolves w2 = resolves w" using d2 by (rule resolves_cong)
    from IH have "num_devices st' = num_devices st + length (filter (resolves w) (name # names))"
      using False rc by simp
    moreover from IH have "warnings (printed w')
        = warnings (printed w) @ filter (\<lambda>n. \<not> resolves w n) (name # names)"
      using False p2 rc by simp
    moreover from IH have "dev_input w' = dev_input w" using d2 by simp
    moreover from IH have "(\<forall>n\<in>set (name # names). \<not> resolves w n)
        \<longrightarrow> st' = st \<and> open_fds w' = open_fds w"
      using o2 rc by simp
    ultimately show ?thesis by blast
  qed
qed

text \<open>
  \<^bold>\<open>Claim C8.\<close>  \<open>input_monitor_init\<close> returns false exactly when none of the three role
  names resolves.  The number of devices it records is the number of names that resolve,
  so it returns true as soon as one does, and it prints one warning for each name that
  does not, in the order of the names.  When it returns false, the open descriptors are
  those that were open before the call (every descriptor opened by the scans, the
  directory's included, has been closed) and the table of descriptors is unchanged.
\<close>

theorem init_fails_iff_no_role_resolves:
  assumes "input_monitor_init st w = (ok, st', w')"
  shows "(\<not> ok \<longleftrightarrow> (\<forall>n\<in>set device_names. \<not> resolves w n))
       \<and> num_devices st' = length (filter (resolves w) device_names)
       \<and> warnings (printed w') = warnings (printed w) @ filter (\<lambda>n. \<not> resolves w n) device_names
       \<and> (\<not> ok \<longrightarrow> open_fds w' = open_fds w \<and> input_fds st' = input_fds st)"
proof -
  define s0 where "s0 = st\<lparr>num_devices := 0\<rparr>"
  obtain s1 w1 where l: "init_loop device_names s0 w = (s1, w1)"
    by (cases "init_loop device_names s0 w")
  have "num_devices s0 + length device_names \<le> MAX_INPUT_DEVICES"
    by (simp add: s0_def device_names_def MAX_INPUT_DEVICES_def)
  from init_loop_result [OF l this]
  have n1: "num_devices s1 = length (filter (resolves w) device_names)"
    and p1: "warnings (printed w1) = warnings (printed w) @ filter (\<lambda>n. \<not> resolves w n) device_names"
    and none: "(\<forall>n\<in>set device_names. \<not> resolves w n) \<Longrightarrow> s1 = s0 \<and> open_fds w1 = open_fds w"
    by (simp_all add: s0_def)
  have z: "num_devices s1 = 0 \<longleftrightarrow> (\<forall>n\<in>set device_names. \<not> resolves w n)"
    using n1 by (simp add: filter_empty_conv)
  show ?thesis
  proof (cases "num_devices s1 = 0")
    case True
    with assms l have r: "ok = False" "st' = s1" "w' = print Failed_to_open_any w1"
      by (auto simp: input_monitor_init_def s0_def)
    from True z none have "s1 = s0" "open_fds w1 = open_fds w" by simp_all
    with r True z n1 p1 show ?thesis
      by (simp add: print_def warnings_append s0_def)
  next
    case False
    with assms l have r: "ok = True" "st' = s1" "w' = print (Monitoring (num_devices s1)) w1"
      by (auto simp: input_monitor_init_def s0_def)
    with False z n1 p1 show ?thesis
      by (simp add: print_def warnings_append)
  qed
qed

theorem init_fails_iff_no_role_resolves_witness:
  "fst (input_monitor_init initial_state
          (env_with_devices [(''mice'', node ''mice''), (''event0'', node ''adc-joypad''),
                             (''event1'', node ''touchscreen'')]))
   \<and> num_devices (fst (snd (input_monitor_init initial_state
          (env_with_devices [(''mice'', node ''mice''), (''event0'', node ''adc-joypad''),
                             (''event1'', node ''touchscreen'')])))) = 1
   \<and> warnings (printed (snd (snd (input_monitor_init initial_state
          (env_with_devices [(''mice'', node ''mice''), (''event0'', node ''adc-joypad''),
                             (''event1'', node ''touchscreen'')])))))
     = [''pwrkey'', ''gpio-keys'']
   \<and> \<not> fst (input_monitor_init initial_state (env_with_devices [(''event1'', node ''touchscreen'')]))
   \<and> open_fds (snd (snd (input_monitor_init initial_state
          (env_with_devices [(''event1'', node ''touchscreen'')]))))
     = open_fds (env_with_devices [(''event1'', node ''touchscreen'')])"
proof -
  let ?wa = "env_with_devices [(''mice'', node ''mice''), (''event0'', node ''adc-joypad''),
                               (''event1'', node ''touchscreen'')]"
  let ?wb = "env_with_devices [(''event1'', node ''touchscreen'')]"
  let ?ta = "input_monitor_init initial_state ?wa"
  let ?tb = "input_monitor_init initial_state ?wb"
  have a: "?ta = (fst ?ta, fst (snd ?ta), snd (snd ?ta))" by simp
  have b: "?tb = (fst ?tb, fst (snd ?tb), snd (snd ?tb))" by simp
  have ra: "resolves ?wa ''joypad''" "\<not> resolves ?wa ''pwrkey''" "\<not> resolves ?wa ''gpio-keys''"
    by code_simp+
  have rb: "\<not> resolves ?wb ''joypad''" "\<not> resolves ?wb ''pwrkey''" "\<not> resolves ?wb ''gpio-keys''"
    by code_simp+
  have pa: "warnings (printed ?wa) = []"
    by (simp add: env_with_devices_def env_of_def)
  from init_fails_iff_no_role_resolves [OF a] ra pa
  have A: "fst ?ta" "num_devices (fst (snd ?ta)) = 1"
    "warnings (printed (snd (snd ?ta))) = [''pwrkey'', ''gpio-keys'']"
    by (simp_all add: device_names_def)
  from init_fails_iff_no_role_resolves [OF b] rb
  have B: "\<not> fst ?tb" "open_fds (snd (snd ?tb)) = open_fds ?wb"
    by (simp_all add: device_names_def)
  from A B show ?thesis by simp
qed

subsection \<open>Brightness\<close>

lemma handle_event_brightness:
  assumes "handle_event b ev st w = (f, st', w')"
  shows "current_brightness st' = current_brightness st
       \<or> current_brightness st' = current_brightness st + 16 \<and> current_brightness st < 100
       \<or> current_brightness st' = current_brightness st - 16 \<and> current_brightness st > 4"
  using assms
  by (auto simp: handle_event_def power_event_def volume_up_event_def volume_down_event_def
        lid_event_def clock_gettime_def Let_def split: if_splits)

lemma handle_event_steps:
  assumes "current_brightness st \<in> brightness_steps" and "handle_event b ev st w = (f, st', w')"
  shows "current_brightness st' \<in> brightness_steps"
  using handle_event_brightness [OF assms(2)] assms(1)
  by (auto simp: brightness_steps_def)

lemma init_loop_brightness:
  "init_loop names st w = (st', w') \<Longrightarrow> current_brightness st' = current_brightness st"
  by (induction names arbitrary: st w) (auto simp: Let_def split: prod.splits if_splits)

lemma init_brightness:
  "current_brightness (fst (snd (input_monitor_init st w))) = current_brightness st"
  by (auto simp: input_monitor_init_def Let_def split: prod.splits dest: init_loop_brightness)

lemma cleanup_brightness:
  "current_brightness (fst (input_monitor_cleanup st w)) = current_brightness st"
  by (simp add: input_monitor_cleanup_def Let_def split: prod.splits)

lemma tick_steps:
  assumes "current_brightness st \<in> brightness_steps"
  shows "current_brightness (fst (snd (input_monitor_check_hotkeys b st w))) \<in> brightness_steps"
proof -
  obtain r st' w' where t: "input_monitor_check_hotkeys b st w = (r, st', w')"
    by (cases "input_monitor_check_hotkeys b st w") auto
  have "current_brightness st' \<in> brightness_steps"
    by (rule check_hotkeys_invariant [where P = "\<lambda>s. current_brightness s \<in> brightness_steps",
          OF _ assms t]) (rule handle_event_steps)
  with t show ?thesis by simp
qed

lemma run_call_steps:
  "current_brightness st \<in> brightness_steps \<Longrightarrow>
   current_brightness (run_call c st) \<in> brightness_steps"
  by (cases c) (simp_all add: init_brightness cleanup_brightness tick_steps)

lemma run_steps:
  "current_brightness st \<in> brightness_steps \<Longrightarrow>
   current_brightness (run cs st) \<in> brightness_steps"
  unfolding run_def by (induction cs arbitrary: st) (simp_all add: run_call_steps)

text \<open>
  \<^bold>\<open>Claim C7.\<close>  While the mode button is held, the backlight is on and the level is one
  of the seven steps: a press of volume-up raises the level by 16 and writes the new
  level to the backlight, except at 100, where nothing changes and no command is run; a
  press of volume-down lowers it by 16 and writes it, except at 4, where nothing
  changes; and whatever the event, the level afterwards is again one of the seven steps.
\<close>

theorem volume_press_steps_level:
  assumes "mode_button_held st" and "backlight_on"
    and "current_brightness st \<in> brightness_steps"
  shows "(volume_up_press ev \<longrightarrow>
            handle_event backlight_on ev st w =
              (if current_brightness st = 100 then (Continue, st, w)
               else (Continue, st\<lparr>current_brightness := current_brightness st + 16\<rparr>,
                     system (SetBrightness (backlight_value (current_brightness st + 16))) w)))
       \<and> (volume_down_press ev \<longrightarrow>
            handle_event backlight_on ev st w =
              (if current_brightness st = 4 then (Continue, st, w)
               else (Continue, st\<lparr>current_brightness := current_brightness st - 16\<rparr>,
                     system (SetBrightness (backlight_value (current_brightness st - 16))) w)))
       \<and> (handle_event backlight_on ev st w = (f, st', w') \<longrightarrow>
            current_brightness st' \<in> brightness_steps)"
proof -
  have up: "current_brightness st < 100 \<longleftrightarrow> current_brightness st \<noteq> 100"
    and down: "current_brightness st > 4 \<longleftrightarrow> current_brightness st \<noteq> 4"
    using assms(3) by (auto simp: brightness_steps_def)
  show ?thesis
    using assms(1,2) up down handle_event_steps [OF assms(3)]
    by (auto simp: volume_up_press_def volume_down_press_def handle_volume_up handle_volume_down
          volume_up_event_def volume_down_event_def Let_def)
qed

theorem volume_press_steps_level_witness:
  "handle_event True (event EV_KEY KEY_VOLUMEUP 1) ((monitoring [3])\<lparr>mode_button_held := True\<rparr>)
       (env_of (clock_from 0) (queues []))
     = (Continue, (monitoring [3])\<lparr>mode_button_held := True, current_brightness := 68\<rparr>,
        system (SetBrightness 173) (env_of (clock_from 0) (queues [])))
   \<and> handle_event True (event EV_KEY KEY_VOLUMEDOWN 1)
       ((monitoring [3])\<lparr>mode_button_held := True\<rparr>) (env_of (clock_from 0) (queues []))
     = (Continue, (monitoring [3])\<lparr>mode_button_held := True, current_brightness := 36\<rparr>,
        system (SetBrightness 91) (env_of (clock_from 0) (queues [])))
   \<and> current_brightness ((monitoring [3])\<lparr>mode_button_held := True\<rparr>) \<in> brightness_steps"
proof -
  let ?st = "(monitoring [3])\<lparr>mode_button_held := True\<rparr>"
  let ?w = "env_of (clock_from 0) (queues [])"
  let ?up = "event EV_KEY KEY_VOLUMEUP 1" and ?down = "event EV_KEY KEY_VOLUMEDOWN 1"
  have h1: "mode_button_held ?st" by simp
  have h3: "current_brightness ?st \<in> brightness_steps"
    by (simp add: monitoring_def initial_state_def brightness_steps_def)
  have b: "current_brightness ?st = 52"
    by (simp add: monitoring_def initial_state_def)
  have up: "volume_up_press ?up"
    by (simp add: volume_up_press_def key_or_switch_def event_def)
  have down: "volume_down_press ?down"
    by (simp add: volume_down_press_def key_or_switch_def event_def)
  have non: "handle_event True (event 0 0 0) ?st ?w = (Continue, ?st, ?w)"
    by (simp add: handle_event_def event_def EV_KEY_def EV_SW_def)
  from volume_press_steps_level [OF h1 TrueI h3, of ?up ?w Continue ?st ?w]
    volume_press_steps_level [OF h1 TrueI h3, of ?down ?w Continue ?st ?w]
    volume_press_steps_level [OF h1 TrueI h3, of "event 0 0 0" ?w Continue ?st ?w]
    up down non b h3
  show ?thesis by (simp add: backlight_value_def signed_divide_int_def)
qed

text \<open>
  \<^bold>\<open>Claim C9.\<close>  From the initial state, whose level is 52, every run of the monitor
  (calls of the three functions in any order, in any environments) leaves a level in
  \<open>{4, 20, 36, 52, 68, 84, 100}\<close>; and one event either keeps the level, or adds 16 to a
  level below 100, or takes 16 from a level above 4.
\<close>

theorem brightness_always_a_step:
  "current_brightness (run cs initial_state) \<in> brightness_steps
   \<and> (handle_event b ev st w = (f, st', w') \<longrightarrow>
        current_brightness st' = current_brightness st
      \<or> current_brightness st' = current_brightness st + 16 \<and> current_brightness st < 100
      \<or> current_brightness st' = current_brightness st - 16 \<and> current_brightness st > 4)"
proof -
  have "current_brightness initial_state \<in> brightness_steps"
    by (simp add: initial_state_def brightness_steps_def)
  then show ?thesis
    using run_steps handle_event_brightness by blast
qed

theorem brightness_always_a_step_witness:
  "current_brightness
     (run [Tick True (env_of (clock_from 0)
             (queues [(3, [Full (event EV_KEY BTN_MODE 1), Full (event EV_KEY KEY_VOLUMEUP 1)])]))]
        initial_state) \<in> brightness_steps
   \<and> (current_brightness ((monitoring [3])\<lparr>current_brightness := 68\<rparr>)
        = current_brightness ((monitoring [3])\<lparr>mode_button_held := True\<rparr>) + 16
      \<and> current_brightness ((monitoring [3])\<lparr>mode_button_held := True\<rparr>) < 100)"
proof -
  let ?st = "(monitoring [3])\<lparr>mode_button_held := True\<rparr>"
  let ?w = "env_of (clock_from 0) (queues [])"
  let ?up = "event EV_KEY KEY_VOLUMEUP 1"
  have up: "key_or_switch ?up" "ev_code ?up = KEY_VOLUMEUP" "ev_value ?up = 1"
    by (simp_all add: key_or_switch_def event_def)
  have b: "current_brightness ?st = 52"
    by (simp add: monitoring_def initial_state_def)
  have h: "handle_event True ?up ?st ?w
      = (Continue, ?st\<lparr>current_brightness := 68\<rparr>, system (SetBrightness 173) ?w)"
    by (simp add: handle_volume_up up volume_up_event_def b Let_def backlight_value_def
        signed_divide_int_def)
  from brightness_always_a_step [of _ True ?up ?st ?w Continue
      "?st\<lparr>current_brightness := 68\<rparr>" "system (SetBrightness 173) ?w"] h b
  show ?thesis by simp
qed

end
